theory Spec2Isabelle
  imports Complex_Main
begin

section \<open>Text\<close>

text \<open>
  A Python \<open>str\<close> is a sequence of Unicode code points; the program looks for the
  rupee sign U+20B9 and the bullet U+2022, so text is a list of code points.
\<close>

type_synonym ustring = "int list"

definition ustr :: "string \<Rightarrow> ustring" where
  "ustr s = map of_char s"

definition rupee :: int where "rupee = 8377"
definition bullet :: int where "bullet = 8226"

text \<open>\<open>str.isspace\<close> on one code point; also what \<open>\s\<close> and \<open>str.strip()\<close> use.\<close>

definition py_isspace :: "int \<Rightarrow> bool" where
  "py_isspace c \<longleftrightarrow>
     (9 \<le> c \<and> c \<le> 13) \<or> (28 \<le> c \<and> c \<le> 32) \<or> c = 133 \<or> c = 160 \<or> c = 5760 \<or>
     (8192 \<le> c \<and> c \<le> 8202) \<or> c = 8232 \<or> c = 8233 \<or> c = 8239 \<or> c = 8287 \<or> c = 12288"

definition strip :: "ustring \<Rightarrow> ustring" where
  "strip s = rev (dropWhile py_isspace (rev (dropWhile py_isspace s)))"

fun join :: "ustring \<Rightarrow> ustring list \<Rightarrow> ustring" where
  "join sep [] = []"
| "join sep [x] = x"
| "join sep (x # y # ys) = x @ sep @ join sep (y # ys)"

text \<open>\<open>needle in hay\<close> for strings.\<close>

fun contains :: "ustring \<Rightarrow> ustring \<Rightarrow> bool" where
  "contains needle [] = (needle = [])"
| "contains needle (c # cs) = (take (length needle) (c # cs) = needle \<or> contains needle cs)"

fun str_nat :: "nat \<Rightarrow> ustring" where
  "str_nat n = (if n < 10 then [48 + int n] else str_nat (n div 10) @ [48 + int (n mod 10)])"

declare str_nat.simps [simp del]

definition str_int :: "int \<Rightarrow> ustring" where
  "str_int i = (if i < 0 then 45 # str_nat (nat (- i)) else str_nat (nat i))"

section \<open>Regular expressions\<close>

text \<open>
  The two patterns of the program use literals, character classes, alternation, a greedy
  \<open>?\<close> and greedy repetitions of a class. A matcher maps the input at the current
  position to the inputs that remain after each way of matching, in the order in which a
  backtracking engine tries them.
\<close>

type_synonym matcher = "ustring \<Rightarrow> ustring list"

definition m_cls :: "(int \<Rightarrow> bool) \<Rightarrow> matcher" where
  "m_cls P s = (case s of [] \<Rightarrow> [] | c # cs \<Rightarrow> if P c then [cs] else [])"

definition m_lit :: "ustring \<Rightarrow> matcher" where
  "m_lit w s = (if take (length w) s = w then [drop (length w) s] else [])"

definition m_seq :: "matcher \<Rightarrow> matcher \<Rightarrow> matcher" where
  "m_seq m1 m2 s = concat (map m2 (m1 s))"

definition m_alt :: "matcher \<Rightarrow> matcher \<Rightarrow> matcher" where
  "m_alt m1 m2 s = m1 s @ m2 s"

definition m_opt :: "matcher \<Rightarrow> matcher" where
  "m_opt m s = m s @ [s]"

fun m_star :: "(int \<Rightarrow> bool) \<Rightarrow> matcher" where
  "m_star P [] = [[]]"
| "m_star P (c # cs) = (if P c then m_star P cs @ [c # cs] else [c # cs])"

fun m_atleast :: "nat \<Rightarrow> (int \<Rightarrow> bool) \<Rightarrow> matcher" where
  "m_atleast 0 P = m_star P"
| "m_atleast (Suc n) P = m_seq (m_cls P) (m_atleast n P)"

text \<open>
  \<open>re.search\<close>: the leftmost position at which the pattern matches, and there the first
  way of matching. The result is the text before the match and \<open>group(0)\<close>.
\<close>

fun re_search :: "matcher \<Rightarrow> ustring \<Rightarrow> (ustring \<times> ustring) option" where
  "re_search m [] = (case m [] of [] \<Rightarrow> None | r # _ \<Rightarrow> Some ([], []))"
| "re_search m (c # cs) =
     (case m (c # cs) of
        r # _ \<Rightarrow> Some ([], take (length (c # cs) - length r) (c # cs))
      | [] \<Rightarrow> map_option (\<lambda>(pre, g). (c # pre, g)) (re_search m cs))"

text \<open>
  A pattern \<open>p(q)\<close> that ends in its only group: each way of matching gives the text of
  \<open>group(1)\<close> and the remaining input.
\<close>

definition m_seq_group :: "matcher \<Rightarrow> matcher \<Rightarrow> ustring \<Rightarrow> (ustring \<times> ustring) list" where
  "m_seq_group m1 m2 s =
     concat (map (\<lambda>r1. map (\<lambda>r2. (take (length r1 - length r2) r1, r2)) (m2 r1)) (m1 s))"

fun re_search_group ::
  "(ustring \<Rightarrow> (ustring \<times> ustring) list) \<Rightarrow> ustring \<Rightarrow> (ustring \<times> ustring) option" where
  "re_search_group m [] = (case m [] of [] \<Rightarrow> None | (g, r) # _ \<Rightarrow> Some ([], g))"
| "re_search_group m (c # cs) =
     (case m (c # cs) of
        (g, r) # _ \<Rightarrow> Some ([], g)
      | [] \<Rightarrow> map_option (\<lambda>(pre, g). (c # pre, g)) (re_search_group m cs))"

text \<open>
  \<open>\d\<close> on \<open>str\<close> is every Unicode decimal digit. The ASCII digits are written out; the
  other code points of category Nd come from the Unicode table \<open>nd\<close>.
\<close>

definition is_digit :: "(int \<Rightarrow> bool) \<Rightarrow> int \<Rightarrow> bool" where
  "is_digit nd c \<longleftrightarrow> (48 \<le> c \<and> c \<le> 57) \<or> nd c"

definition digit_or_comma :: "(int \<Rightarrow> bool) \<Rightarrow> int \<Rightarrow> bool" where
  "digit_or_comma nd c \<longleftrightarrow> is_digit nd c \<or> c = 44"

definition is_upper :: "int \<Rightarrow> bool" where
  "is_upper c \<longleftrightarrow> 65 \<le> c \<and> c \<le> 90"

definition place_char :: "int \<Rightarrow> bool" where
  "place_char c \<longleftrightarrow> (65 \<le> c \<and> c \<le> 90) \<or> (97 \<le> c \<and> c \<le> 122) \<or> c = 32 \<or> c = 46 \<or> c = 44 \<or> c = 45"

text \<open>The pattern \<^verbatim>\<open>R\s?[\d,]+\<close>, where \<open>R\<close> is the rupee sign U+20B9.\<close>

definition price_rx :: "(int \<Rightarrow> bool) \<Rightarrow> matcher" where
  "price_rx nd =
     m_seq (m_lit [rupee]) (m_seq (m_opt (m_cls py_isspace)) (m_atleast 1 (digit_or_comma nd)))"

text \<open>
  The pattern \<^verbatim>\<open>(?:in|at|B)\s+([A-Z][A-Za-z .,-]{2,})\<close>, where \<open>B\<close> is the bullet U+2022.
\<close>

definition location_rx :: "ustring \<Rightarrow> (ustring \<times> ustring) list" where
  "location_rx =
     m_seq_group
       (m_seq (m_alt (m_lit (ustr ''in'')) (m_alt (m_lit (ustr ''at'')) (m_lit [bullet])))
              (m_atleast 1 py_isspace))
       (m_seq (m_cls is_upper) (m_atleast 2 place_char))"

section \<open>Markup tree\<close>

text \<open>
  What the HTML parser returns: a tree of tags and strings. \<open>Comment\<close> stands for the
  string kinds that \<open>get_text\<close> leaves out (comments, declarations, script and style
  text). The parsed document itself is a tag, named \<open>[document]\<close>, above every element.
\<close>

datatype node =
    NavigableString ustring
  | Comment ustring
  | Tag ustring "(ustring \<times> ustring) list" "node list"

text \<open>
  An element in its tree: the node and its ancestors, nearest first, so that
  \<open>.parent\<close> is the head of the chain and \<open>None\<close> when the chain is empty.
\<close>

type_synonym element = "node \<times> node list"

fun descendants :: "node list \<Rightarrow> node \<Rightarrow> element list" where
  "descendants anc (Tag nm ats cs) =
     concat (map (\<lambda>c. (c, Tag nm ats cs # anc) # descendants (Tag nm ats cs # anc) c) cs)"
| "descendants anc (NavigableString s) = []"
| "descendants anc (Comment s) = []"

text \<open>\<open>tag.get(key)\<close>.\<close>

fun get_attr :: "node \<Rightarrow> ustring \<Rightarrow> ustring option" where
  "get_attr (Tag nm ats cs) k = map_of ats k"
| "get_attr (NavigableString s) k = None"
| "get_attr (Comment s) k = None"

text \<open>The selector \<^verbatim>\<open>a[href*="/item/"], a[data-aut-id="itemTitle"]\<close>.\<close>

fun is_card :: "node \<Rightarrow> bool" where
  "is_card (Tag nm ats cs) =
     (nm = ustr ''a'' \<and>
      ((case map_of ats (ustr ''href'') of None \<Rightarrow> False | Some h \<Rightarrow> contains (ustr ''/item/'') h) \<or>
       map_of ats (ustr ''data-aut-id'') = Some (ustr ''itemTitle'')))"
| "is_card (NavigableString s) = False"
| "is_card (Comment s) = False"

text \<open>\<open>soup.select(...)\<close>: the matching elements below the root, in document order.\<close>

definition select_cards :: "node \<Rightarrow> element list" where
  "select_cards soup = filter (\<lambda>e. is_card (fst e)) (descendants [] soup)"

fun strings :: "node \<Rightarrow> ustring list" where
  "strings (NavigableString s) = [s]"
| "strings (Comment s) = []"
| "strings (Tag nm ats cs) = concat (map strings cs)"

text \<open>\<open>node.get_text(" ", strip=True)\<close>.\<close>

definition get_text :: "node \<Rightarrow> ustring" where
  "get_text n = join [32] (filter (\<lambda>s. s \<noteq> []) (map strip (strings n)))"

text \<open>Truth value of a node: a tag is always true, a string is true when non-empty.\<close>

fun node_bool :: "node \<Rightarrow> bool" where
  "node_bool (Tag nm ats cs) = True"
| "node_bool (NavigableString s) = (s \<noteq> [])"
| "node_bool (Comment s) = (s \<noteq> [])"

text \<open>
  The loop \<^verbatim>\<open>for _ in range(3): if parent and parent.parent: parent = parent.parent else: break\<close>.
\<close>

fun bubble :: "nat \<Rightarrow> element \<Rightarrow> element" where
  "bubble 0 e = e"
| "bubble (Suc k) (n, []) = (n, [])"
| "bubble (Suc k) (n, p # anc) = (if node_bool n \<and> node_bool p then bubble k (p, anc) else (n, p # anc))"

section \<open>Extractor\<close>

datatype error = ValueError | OSError

record listing =
  title :: "ustring option"
  url :: ustring
  price_guess :: "ustring option"
  location_guess :: "ustring option"
  snippet :: "ustring option"

datatype response = Http int ustring | Fault ustring

text \<open>
  What the program takes from outside its source: the HTML parser, \<open>urljoin\<close> (which
  raises \<open>ValueError\<close> on some inputs), the Unicode table of decimal digits beyond
  ASCII, the answer of the server to the n-th request of the run, the text that the CSV
  writer produces, whether a path can be opened for writing, and \<open>int(...)\<close> on a string.
\<close>

record env =
  html_parser :: "ustring \<Rightarrow> node"
  urljoin :: "ustring \<Rightarrow> ustring \<Rightarrow> error + ustring"
  unicode_nd :: "int \<Rightarrow> bool"
  session_get :: "nat \<Rightarrow> ustring \<Rightarrow> response"
  csv_text :: "ustring list \<Rightarrow> listing list \<Rightarrow> ustring"
  open_ok :: "ustring \<Rightarrow> bool"
  parse_int :: "ustring \<Rightarrow> int option"

definition SITE :: ustring where
  "SITE = ustr ''https://www.olx.in''"

definition BASE_URL :: ustring where
  "BASE_URL = ustr ''https://www.olx.in/items/q-car-cover''"

definition OUTPUT_CSV :: ustring where
  "OUTPUT_CSV = ustr ''olx_car_covers.csv''"

text \<open>Lines 57 to 66: the text around the anchor, \<open>None\<close> when \<^verbatim>\<open>if parent:\<close> fails.\<close>

definition context_text :: "element \<Rightarrow> ustring option" where
  "context_text a =
     (let parent = fst (bubble 3 a)
      in if node_bool parent then Some (get_text parent) else None)"

definition price_of :: "(int \<Rightarrow> bool) \<Rightarrow> ustring \<Rightarrow> ustring option" where
  "price_of nd text = map_option snd (re_search (price_rx nd) text)"

definition location_of :: "ustring \<Rightarrow> ustring option" where
  "location_of text = map_option (\<lambda>m. strip (snd m)) (re_search_group location_rx text)"

text \<open>Lines 49 to 85: the record of one anchor whose absolute URL is \<open>u\<close>.\<close>

definition listing_of :: "(int \<Rightarrow> bool) \<Rightarrow> element \<Rightarrow> ustring \<Rightarrow> listing" where
  "listing_of nd a u =
     (let t = get_text (fst a) in
      case context_text a of
        None \<Rightarrow>
          \<lparr>title = (if t = [] then None else Some t), url = u, price_guess = None,
           location_guess = None, snippet = None\<rparr>
      | Some text \<Rightarrow>
          \<lparr>title = (if t = [] then None else Some t), url = u,
           price_guess = price_of nd text,
           location_guess = location_of text,
           snippet = (if text = [] then None else Some (take 300 text))\<rparr>)"

text \<open>The loop over the cards, with its two variables \<open>results\<close> and \<open>seen\<close>.\<close>

fun extract_loop ::
  "env \<Rightarrow> element list \<Rightarrow> listing list \<times> ustring set \<Rightarrow> error + listing list" where
  "extract_loop E [] (results, seen) = Inr results"
| "extract_loop E (a # cards) (results, seen) =
     (case get_attr (fst a) (ustr ''href'') of
        None \<Rightarrow> extract_loop E cards (results, seen)
      | Some href \<Rightarrow>
          if href = [] then extract_loop E cards (results, seen)
          else (case urljoin E SITE href of
                  Inl e \<Rightarrow> Inl e
                | Inr u \<Rightarrow>
                    if u \<in> seen then extract_loop E cards (results, seen)
                    else extract_loop E cards
                           (results @ [listing_of (unicode_nd E) a u], insert u seen)))"

definition extract_listings :: "env \<Rightarrow> ustring \<Rightarrow> error + listing list" where
  "extract_listings E html = extract_loop E (select_cards (html_parser E html)) ([], {})"

section \<open>Fetcher, orchestrator, serializer\<close>

text \<open>
  The effects of a run: the lines printed on the two streams, the URLs requested so far,
  the delays slept and the files written.
\<close>

record world =
  stdout :: "ustring list"
  stderr :: "ustring list"
  requests :: "ustring list"
  slept :: "real list"
  files :: "ustring \<rightharpoonup> ustring"

definition print :: "ustring \<Rightarrow> world \<Rightarrow> world" where
  "print line w = w\<lparr>stdout := stdout w @ [line]\<rparr>"

definition print_err :: "ustring \<Rightarrow> world \<Rightarrow> world" where
  "print_err line w = w\<lparr>stderr := stderr w @ [line]\<rparr>"

definition fetch_page :: "env \<Rightarrow> ustring \<Rightarrow> world \<Rightarrow> ustring option \<times> world" where
  "fetch_page E u w =
     (let w1 = w\<lparr>requests := requests w @ [u]\<rparr> in
      case session_get E (length (requests w)) u of
        Http status_code body \<Rightarrow>
          if status_code = 200 then (Some body, w1)
          else (None, print_err (ustr ''[warn] HTTP '' @ str_int status_code @ ustr '' for '' @ u) w1)
      | Fault e \<Rightarrow> (None, print_err (ustr ''[error] '' @ e) w1))"

definition next_page_url :: "int \<Rightarrow> ustring" where
  "next_page_url current_page =
     (if current_page \<le> 1 then BASE_URL else BASE_URL @ ustr ''?page='' @ str_int current_page)"

definition fetching_line :: "int \<Rightarrow> ustring" where
  "fetching_line page_num =
     ustr ''[info] Fetching page '' @ str_int page_num @ ustr '': '' @ next_page_url page_num"

text \<open>
  One pass through the body of the loop of \<open>scrape\<close>, for page \<open>page_num\<close>, on the
  variables \<open>all_rows\<close> and \<open>seen_urls\<close>: the loop breaks, an exception leaves it, or
  it goes on with the variables updated. \<open>time.sleep\<close> raises \<open>ValueError\<close> on a
  negative delay.
\<close>

datatype outcome =
    Break world
  | Raised error world
  | Continue "listing list \<times> ustring set \<times> world"

definition page_step ::
  "env \<Rightarrow> real \<Rightarrow> int \<Rightarrow> listing list \<times> ustring set \<times> world \<Rightarrow> outcome" where
  "page_step E delay_sec page_num st =
     (case st of (all_rows, seen_urls, w) \<Rightarrow>
      let u = next_page_url page_num;
          w1 = print (fetching_line page_num) w
      in case fetch_page E u w1 of
           (None, w2) \<Rightarrow> Break (print (ustr ''[warn] No HTML fetched, stopping.'') w2)
         | (Some html, w2) \<Rightarrow>
             if html = [] then Break (print (ustr ''[warn] No HTML fetched, stopping.'') w2)
             else (case extract_listings E html of
                     Inl e \<Rightarrow> Raised e w2
                   | Inr rows \<Rightarrow>
                       let new_rows = filter (\<lambda>r. url r \<notin> seen_urls) rows in
                       if new_rows = []
                       then Break (print (ustr ''[info] No new rows found; stopping.'') w2)
                       else if delay_sec < 0 then Raised ValueError w2
                       else Continue
                              (all_rows @ new_rows, seen_urls \<union> set (map url new_rows),
                               w2\<lparr>slept := slept w2 @ [delay_sec]\<rparr>)))"

text \<open>The loop over the page numbers that are left; it returns \<open>all_rows\<close>.\<close>

fun scrape_pages ::
  "env \<Rightarrow> real \<Rightarrow> int list \<Rightarrow> listing list \<times> ustring set \<times> world \<Rightarrow>
   (error + listing list) \<times> world" where
  "scrape_pages E delay_sec [] st = (Inr (fst st), snd (snd st))"
| "scrape_pages E delay_sec (page_num # ps) st =
     (case page_step E delay_sec page_num st of
        Break w' \<Rightarrow> (Inr (fst st), w')
      | Raised e w' \<Rightarrow> (Inl e, w')
      | Continue st' \<Rightarrow> scrape_pages E delay_sec ps st')"

definition scrape :: "env \<Rightarrow> int \<Rightarrow> real \<Rightarrow> world \<Rightarrow> (error + listing list) \<times> world" where
  "scrape E max_pages delay_sec w = scrape_pages E delay_sec [1..max_pages] ([], {}, w)"

definition fieldnames :: "ustring list" where
  "fieldnames =
     [ustr ''title'', ustr ''url'', ustr ''price_guess'', ustr ''location_guess'', ustr ''snippet'']"

definition save_csv :: "env \<Rightarrow> listing list \<Rightarrow> ustring \<Rightarrow> world \<Rightarrow> (error + unit) \<times> world" where
  "save_csv E rows path w =
     (if rows = [] then (Inr (), print (ustr ''[info] No rows to save.'') w)
      else if \<not> open_ok E path then (Inl OSError, w)
      else (Inr (),
            print (ustr ''[info] Saved '' @ str_nat (length rows) @ ustr '' rows to '' @ path)
              (w\<lparr>files := (files w)(path \<mapsto> csv_text E fieldnames rows)\<rparr>)))"

text \<open>The script body: \<open>argv\<close> is \<open>sys.argv\<close>.\<close>

definition cli_max_pages :: "env \<Rightarrow> ustring list \<Rightarrow> int" where
  "cli_max_pages E argv =
     (if 2 \<le> length argv
      then (case parse_int E (argv ! 1) of None \<Rightarrow> 5 | Some n \<Rightarrow> n)
      else 5)"

definition main :: "env \<Rightarrow> ustring list \<Rightarrow> world \<Rightarrow> (error + unit) \<times> world" where
  "main E argv w =
     (let max_pages = cli_max_pages E argv
      in case scrape E max_pages (18 / 10) w of
           (Inl e, w1) \<Rightarrow> (Inl e, w1)
         | (Inr rows, w1) \<Rightarrow>
             (case save_csv E rows OUTPUT_CSV w1 of
                (Inl e, w2) \<Rightarrow> (Inl e, w2)
              | (Inr u, w2) \<Rightarrow> (Inr (), print (ustr ''[done]'') w2)))"

section \<open>Notions used to state the properties\<close>

text \<open>
  The variables of the loop of \<open>scrape\<close> after the pages \<open>ps\<close> have all been
  processed without leaving the loop; \<open>None\<close> when one of them left it.
\<close>

fun accumulated ::
  "env \<Rightarrow> real \<Rightarrow> int list \<Rightarrow> listing list \<times> ustring set \<times> world \<Rightarrow>
   (listing list \<times> ustring set \<times> world) option" where
  "accumulated E delay_sec [] st = Some st"
| "accumulated E delay_sec (page_num # ps) st =
     (case page_step E delay_sec page_num st of
        Continue st' \<Rightarrow> accumulated E delay_sec ps st'
      | Break w' \<Rightarrow> None
      | Raised e w' \<Rightarrow> None)"

text \<open>A fetch fails on a status other than 200 and on a transport fault.\<close>

fun failure :: "response \<Rightarrow> bool" where
  "failure (Http status_code body) = (status_code \<noteq> 200)"
| "failure (Fault e) = True"

text \<open>
  The absolute URL of a card: \<open>None\<close> for a card without an href (or with an empty
  one), otherwise what \<open>urljoin\<close> makes of the href.
\<close>

definition card_url :: "env \<Rightarrow> element \<Rightarrow> (error + ustring) option" where
  "card_url E a =
     (case get_attr (fst a) (ustr ''href'') of
        None \<Rightarrow> None
      | Some href \<Rightarrow> if href = [] then None else Some (urljoin E SITE href))"

text \<open>
  The records that the cards of a page give when none is left out as a duplicate: one
  for every card with an href, in document order.
\<close>

definition candidates :: "env \<Rightarrow> element list \<Rightarrow> listing list" where
  "candidates E cards =
     concat (map (\<lambda>a. case card_url E a of
                          Some (Inr u) \<Rightarrow> [listing_of (unicode_nd E) a u]
                        | Some (Inl e) \<Rightarrow> []
                        | None \<Rightarrow> []) cards)"

text \<open>The first record with URL \<open>u\<close> in a sequence of records.\<close>

definition first_with_url :: "ustring \<Rightarrow> listing list \<Rightarrow> listing option" where
  "first_with_url u rs = find (\<lambda>r. url r = u) rs"

text \<open>
  The bodies that the run processed between the worlds \<open>w\<close> and \<open>w'\<close>: for each request
  made in between, the body of the answer when the status is 200 and the body is not
  empty. The candidates of the run are the candidates of these pages, in order.
\<close>

fun page_body :: "response \<Rightarrow> ustring list" where
  "page_body (Http status_code body) = (if status_code = 200 \<and> body \<noteq> [] then [body] else [])"
| "page_body (Fault e) = []"

definition fetched_bodies :: "env \<Rightarrow> world \<Rightarrow> world \<Rightarrow> ustring list" where
  "fetched_bodies E w w' =
     concat (map (\<lambda>i. page_body (session_get E i (requests w' ! i)))
                 [length (requests w) ..< length (requests w')])"

definition run_candidates :: "env \<Rightarrow> world \<Rightarrow> world \<Rightarrow> listing list" where
  "run_candidates E w w' =
     concat (map (\<lambda>html. candidates E (select_cards (html_parser E html))) (fetched_bodies E w w'))"

definition is_alpha :: "int \<Rightarrow> bool" where
  "is_alpha c \<longleftrightarrow> (65 \<le> c \<and> c \<le> 90) \<or> (97 \<le> c \<and> c \<le> 122)"

text \<open>
  What the price pattern accepts: the rupee sign, at most one whitespace character, then
  one or more characters each of which is a decimal digit or a comma.
\<close>

definition price_shape :: "(int \<Rightarrow> bool) \<Rightarrow> ustring \<Rightarrow> bool" where
  "price_shape nd p \<longleftrightarrow>
     (\<exists>sp ds. p = rupee # sp @ ds \<and> length sp \<le> 1 \<and> (\<forall>c\<in>set sp. py_isspace c) \<and>
        ds \<noteq> [] \<and> (\<forall>c\<in>set ds. digit_or_comma nd c))"

text \<open>
  Digit groups with comma separators, as the spec words the price: groups of one or more
  digits, with a single comma between two groups.
\<close>

fun digit_groups :: "(int \<Rightarrow> bool) \<Rightarrow> ustring \<Rightarrow> bool" where
  "digit_groups nd [] = False"
| "digit_groups nd [c] = is_digit nd c"
| "digit_groups nd (c # d # cs) =
     (is_digit nd c \<and> (if d = 44 then digit_groups nd cs else digit_groups nd (d # cs)))"

definition spec_price_shape :: "(int \<Rightarrow> bool) \<Rightarrow> ustring \<Rightarrow> bool" where
  "spec_price_shape nd p =
     (case p of
        [] \<Rightarrow> False
      | c # t \<Rightarrow>
          c = rupee \<and>
          (digit_groups nd t \<or> (case t of [] \<Rightarrow> False | s # t' \<Rightarrow> py_isspace s \<and> digit_groups nd t')))"

text \<open>
  What the location pattern accepts. The place name, in the words of the spec: a
  capitalized word and then a run of two or more letters, spaces, periods, commas and
  hyphens. Before it: the letters \<open>in\<close>, the letters \<open>at\<close> or the bullet, and whitespace.
\<close>

definition capitalized_word :: "ustring \<Rightarrow> bool" where
  "capitalized_word w \<longleftrightarrow> (\<exists>c rest. w = c # rest \<and> is_upper c \<and> (\<forall>x\<in>set rest. is_alpha x))"

definition place_name :: "ustring \<Rightarrow> bool" where
  "place_name cap \<longleftrightarrow>
     (\<exists>w run. cap = w @ run \<and> capitalized_word w \<and> (\<forall>x\<in>set run. place_char x) \<and>
        2 \<le> length run)"

definition location_match :: "ustring \<Rightarrow> ustring \<Rightarrow> bool" where
  "location_match m cap \<longleftrightarrow>
     (\<exists>conn ws. m = conn @ ws @ cap \<and>
        (conn = ustr ''in'' \<or> conn = ustr ''at'' \<or> conn = [bullet]) \<and>
        ws \<noteq> [] \<and> (\<forall>c\<in>set ws. py_isspace c) \<and> place_name cap)"

text \<open>The words of a text: its maximal runs of characters that are not whitespace.\<close>

fun split_ws :: "ustring \<Rightarrow> ustring \<Rightarrow> ustring list" where
  "split_ws cur [] = (if cur = [] then [] else [cur])"
| "split_ws cur (c # cs) =
     (if py_isspace c then (if cur = [] then split_ws [] cs else cur # split_ws [] cs)
      else split_ws (cur @ [c]) cs)"

definition words :: "ustring \<Rightarrow> ustring list" where
  "words t = split_ws [] t"

text \<open>The two parts of the location pattern: up to the group, and the group.\<close>

definition conn_rx :: matcher where
  "conn_rx = m_seq (m_alt (m_lit (ustr ''in'')) (m_alt (m_lit (ustr ''at'')) (m_lit [bullet])))
              (m_atleast 1 py_isspace)"

definition cap_rx :: matcher where
  "cap_rx = m_seq (m_cls is_upper) (m_atleast 2 place_char)"

definition scenario_D :: ustring where
  "scenario_D = ustr ''Used car cover for sale in Mumbai '' @ [rupee] @ ustr '' 1,200''"

fun is_tag :: "node \<Rightarrow> bool" where
  "is_tag (Tag nm ats cs) = True"
| "is_tag (NavigableString s) = False"
| "is_tag (Comment s) = False"

text \<open>
  The node that \<open>k\<close> parent links lead to from an element, the element itself for
  \<open>k = 0\<close>; defined when the element has at least \<open>k\<close> ancestors.
\<close>

definition ancestor_at :: "nat \<Rightarrow> element \<Rightarrow> node" where
  "ancestor_at k a = (fst a # snd a) ! k"




text \<open>The environment in which the n-th request of the run is answered by \<open>r\<close>.\<close>

definition with_response :: "env \<Rightarrow> nat \<Rightarrow> response \<Rightarrow> env" where
  "with_response E n r = E\<lparr>session_get := (\<lambda>m u. if m = n then r else session_get E m u)\<rparr>"

section \<open>A small site\<close>

text \<open>
  Two result pages and an environment that serves them as pages 1 and 2 and answers 404
  afterwards; \<open>urljoin\<close> is instantiated for hrefs that are absolute paths.
\<close>

definition demo_page1 :: node where
  "demo_page1 =
     Tag (ustr ''[document]'') []
       [Tag (ustr ''div'') []
          [Tag (ustr ''a'') [(ustr ''href'', ustr ''/item/1'')] [NavigableString (ustr ''Cover'')],
           NavigableString (ustr ''for sale in Mumbai '' @ [rupee] @ ustr '' 1,200''),
           Tag (ustr ''a'') [(ustr ''href'', ustr ''/item/1'')] [NavigableString (ustr ''Again'')],
           Tag (ustr ''a'') [(ustr ''data-aut-id'', ustr ''itemTitle'')] [NavigableString (ustr ''Bare'')]]]"

definition demo_page2 :: node where
  "demo_page2 =
     Tag (ustr ''[document]'') []
       [Tag (ustr ''a'') [(ustr ''href'', ustr ''/item/1'')] [NavigableString (ustr ''Old'')],
        Tag (ustr ''a'') [(ustr ''href'', ustr ''/item/2'')] [NavigableString (ustr ''Mat'')]]"

definition demo_page4 :: node where
  "demo_page4 =
     Tag (ustr ''[document]'') []
       [Tag (ustr ''div'') []
          [Tag (ustr ''a'') [(ustr ''href'', ustr ''/item/4'')] [NavigableString (ustr ''Cover'')],
           NavigableString ([rupee] @ ustr '' 1,200, Mumbai'')]]"

definition demo_env :: env where
  "demo_env =
     \<lparr>html_parser = (\<lambda>h. if h = ustr ''one'' then demo_page1
                          else if h = ustr ''two'' then demo_page2
                          else if h = ustr ''four'' then demo_page4
                          else Tag (ustr ''[document]'') [] []),
      urljoin = (\<lambda>b h. Inr (b @ h)),
      unicode_nd = (\<lambda>c. False),
      session_get = (\<lambda>n u. if n = 0 then Http 200 (ustr ''one'')
                            else if n = 1 then Http 200 (ustr ''two'')
                            else Http 404 []),
      csv_text = (\<lambda>f r. []),
      open_ok = (\<lambda>p. True),
      parse_int = (\<lambda>s. None)\<rparr>"

definition demo_world :: world where
  "demo_world = \<lparr>stdout = [], stderr = [], requests = [], slept = [], files = Map.empty\<rparr>"

definition demo_row1 :: listing where
  "demo_row1 =
     \<lparr>title = Some (ustr ''Cover''), url = ustr ''https://www.olx.in/item/1'',
      price_guess = Some ([rupee] @ ustr '' 1,200''), location_guess = Some (ustr ''Mumbai''),
      snippet = Some (ustr ''Cover for sale in Mumbai '' @ [rupee] @ ustr '' 1,200 Again Bare'')\<rparr>"


definition demo_row2 :: listing where
  "demo_row2 =
     \<lparr>title = Some (ustr ''Mat''), url = ustr ''https://www.olx.in/item/2'',
      price_guess = None, location_guess = None,
      snippet = Some (ustr ''Old Mat'')\<rparr>"

definition demo_row1b :: listing where
  "demo_row1b =
     \<lparr>title = Some (ustr ''Old''), url = ustr ''https://www.olx.in/item/1'',
      price_guess = None, location_guess = None,
      snippet = Some (ustr ''Old Mat'')\<rparr>"

definition demo_env_empty :: env where
  "demo_env_empty =
     demo_env\<lparr>session_get := (\<lambda>n u. if n = 0 then Http 200 (ustr ''one'') else Http 200 [])\<rparr>"

definition demo_env_down :: env where
  "demo_env_down = demo_env\<lparr>session_get := (\<lambda>n u. Http 404 (ustr ''gone''))\<rparr>"

definition demo_anchor :: node where
  "demo_anchor =
     Tag (ustr ''a'') [(ustr ''href'', ustr ''/item/9'')]
       [NavigableString (ustr ''Mat in Goa '' @ [rupee] @ ustr ''5'')]"

definition demo_page3 :: node where
  "demo_page3 = Tag (ustr ''[document]'') [] [demo_anchor]"

definition demo_row4 :: listing where
  "demo_row4 =
     \<lparr>title = Some (ustr ''Cover''), url = ustr ''https://www.olx.in/item/4'',
      price_guess = Some ([rupee] @ ustr '' 1,200,''), location_guess = None,
      snippet = Some (ustr ''Cover '' @ [rupee] @ ustr '' 1,200, Mumbai'')\<rparr>"





text \<open>A page whose text has neither the word \<open>in\<close> nor the word \<open>at\<close> nor a bullet.\<close>

definition demo_page6 :: node where
  "demo_page6 =
     Tag (ustr ''[document]'') []
       [Tag (ustr ''a'') [(ustr ''href'', ustr ''/item/6'')]
          [NavigableString (ustr ''Satin Black cover'')]]"

definition demo_env_satin :: env where
  "demo_env_satin = demo_env\<lparr>html_parser := (\<lambda>h. demo_page6)\<rparr>"

definition demo_row6 :: listing where
  "demo_row6 =
     \<lparr>title = Some (ustr ''Satin Black cover''), url = ustr ''https://www.olx.in/item/6'',
      price_guess = None, location_guess = Some (ustr ''Black cover''),
      snippet = Some (ustr ''Satin Black cover'')\<rparr>"


section \<open>Evaluation of the small site\<close>

lemma demo_extract_one: "extract_listings demo_env (ustr ''one'') = Inr [demo_row1]"
  by code_simp

lemma demo_extract_two: "extract_listings demo_env (ustr ''two'') = Inr [demo_row1b, demo_row2]"
  by code_simp

lemma demo_acc_rows:
  "map_option fst (accumulated demo_env (3 / 2) [1..3 - 1] ([], {}, demo_world)) =
     Some [demo_row1, demo_row2]"
  by code_simp

lemma demo_requests_two: "length (requests demo_world @ map next_page_url [1..3 - 1]) = 2"
  by code_simp

lemma demo_down_first: "failure (session_get demo_env_down (length (requests demo_world)) BASE_URL)"
  by (simp add: demo_env_down_def)

lemma demo_cli: "cli_max_pages demo_env_down [ustr ''olx_scrapper.py''] = 5"
  by (simp add: cli_max_pages_def)

lemma demo_empty_acc_rows:
  "map_option fst (accumulated demo_env_empty (3 / 2) [1..2 - 1] ([], {}, demo_world)) =
     Some [demo_row1]"
  by code_simp

lemma demo_requests_one: "length (requests demo_world @ map next_page_url [1..2 - 1]) = 1"
  by code_simp

lemma demo_scrape_rows: "fst (scrape demo_env 5 (3 / 2) demo_world) = Inr [demo_row1, demo_row2]"
  by code_simp

lemma demo_candidates_one:
  "map url (candidates demo_env (select_cards (html_parser demo_env (ustr ''one'')))) =
     [url demo_row1, url demo_row1]"
  by code_simp

lemma demo_run_candidates:
  "map url (run_candidates demo_env demo_world (snd (scrape demo_env 5 (3 / 2) demo_world))) =
     [url demo_row1, url demo_row1, url demo_row1, url demo_row2]"
  by code_simp


lemma demo_extract_four: "extract_listings demo_env (ustr ''four'') = Inr [demo_row4]"
  by code_simp

lemma demo_price_four: "price_guess demo_row4 = Some ([rupee] @ ustr '' 1,200,'')"
  by (simp add: demo_row4_def)

section \<open>Records and the anchors they come from\<close>

lemma extract_loop_origin:
  "extract_loop E cards (results, seen) = Inr rs \<Longrightarrow> r \<in> set rs \<Longrightarrow>
   r \<in> set results \<or>
   (\<exists>a\<in>set cards. \<exists>href. get_attr (fst a) (ustr ''href'') = Some href \<and> href \<noteq> [] \<and>
      urljoin E SITE href = Inr (url r) \<and> r = listing_of (unicode_nd E) a (url r))"
proof (induction cards arbitrary: results seen)
  case Nil
  then show ?case by simp
next
  case (Cons a cards)
  show ?case
  proof (cases "get_attr (fst a) (ustr ''href'')")
    case None
    with Cons.prems have "extract_loop E cards (results, seen) = Inr rs" by simp
    from Cons.IH[OF this Cons.prems(2)] show ?thesis by auto
  next
    case (Some href)
    show ?thesis
    proof (cases "href = []")
      case True
      with Some Cons.prems have "extract_loop E cards (results, seen) = Inr rs" by simp
      from Cons.IH[OF this Cons.prems(2)] show ?thesis by auto
    next
      case False
      note ne = this
      show ?thesis
      proof (cases "urljoin E SITE href")
        case (Inl e)
        with Some ne Cons.prems show ?thesis by simp
      next
        case (Inr u)
        show ?thesis
        proof (cases "u \<in> seen")
          case True
          with Some ne Inr Cons.prems have "extract_loop E cards (results, seen) = Inr rs" by simp
          from Cons.IH[OF this Cons.prems(2)] show ?thesis by auto
        next
          case False
          with Some ne Inr Cons.prems
          have "extract_loop E cards (results @ [listing_of (unicode_nd E) a u], insert u seen) = Inr rs"
            by simp
          from Cons.IH[OF this Cons.prems(2)]
          have "r \<in> set (results @ [listing_of (unicode_nd E) a u]) \<or>
            (\<exists>a\<in>set cards. \<exists>href. get_attr (fst a) (ustr ''href'') = Some href \<and> href \<noteq> [] \<and>
              urljoin E SITE href = Inr (url r) \<and> r = listing_of (unicode_nd E) a (url r))" .
          moreover have "url (listing_of (unicode_nd E) a u) = u"
            by (simp add: listing_of_def Let_def split: option.splits)
          ultimately show ?thesis using Some ne Inr by auto
        qed
      qed
    qed
  qed
qed

lemma extract_listings_origin:
  assumes "extract_listings E html = Inr rs" and "r \<in> set rs"
  shows "\<exists>a\<in>set (select_cards (html_parser E html)). \<exists>href.
           get_attr (fst a) (ustr ''href'') = Some href \<and> href \<noteq> [] \<and>
           urljoin E SITE href = Inr (url r) \<and> r = listing_of (unicode_nd E) a (url r)"
  using extract_loop_origin[of E _ "[]" "{}" rs r] assms
  by (simp add: extract_listings_def)

lemma snippet_listing_of:
  "snippet (listing_of nd a u) =
     (case context_text a of None \<Rightarrow> None
      | Some text \<Rightarrow> if text = [] then None else Some (take 300 text))"
  by (simp add: listing_of_def Let_def split: option.splits)

section \<open>First occurrences within a page\<close>

lemma first_with_url_Nil [simp]: "first_with_url u [] = None"
  by (simp add: first_with_url_def)

lemma first_with_url_Cons [simp]:
  "first_with_url u (r # rs) = (if url r = u then Some r else first_with_url u rs)"
  by (simp add: first_with_url_def)

lemma first_with_url_append:
  "first_with_url u (xs @ ys) =
     (case first_with_url u xs of None \<Rightarrow> first_with_url u ys | Some r \<Rightarrow> Some r)"
  by (induction xs) auto

lemma first_with_url_None: "first_with_url u xs = None \<longleftrightarrow> u \<notin> url ` set xs"
  by (induction xs) auto

lemma first_with_url_Some: "first_with_url u xs = Some r \<Longrightarrow> r \<in> set xs \<and> url r = u"
  by (induction xs) (auto split: if_splits)

lemma first_with_url_filter:
  "u \<notin> S \<Longrightarrow> first_with_url u (filter (\<lambda>r. url r \<notin> S) xs) = first_with_url u xs"
  by (induction xs) auto

lemma url_listing_of [simp]: "url (listing_of nd a u) = u"
  by (simp add: listing_of_def Let_def split: option.splits)

lemma extract_loop_card:
  "extract_loop E (a # cards) (results, seen) =
     (case card_url E a of
        None \<Rightarrow> extract_loop E cards (results, seen)
      | Some (Inl e) \<Rightarrow> Inl e
      | Some (Inr u) \<Rightarrow>
          if u \<in> seen then extract_loop E cards (results, seen)
          else extract_loop E cards (results @ [listing_of (unicode_nd E) a u], insert u seen))"
  by (simp add: card_url_def split: option.splits sum.splits)

lemma candidates_Nil [simp]: "candidates E [] = []"
  by (simp add: candidates_def)

lemma candidates_Cons:
  "candidates E (a # cards) =
     (case card_url E a of
        Some (Inr u) \<Rightarrow> listing_of (unicode_nd E) a u # candidates E cards
      | Some (Inl e) \<Rightarrow> candidates E cards
      | None \<Rightarrow> candidates E cards)"
  by (simp add: candidates_def split: option.splits sum.splits)

lemma extract_loop_first:
  assumes "extract_loop E cards (results, seen) = Inr rs"
    and "seen = url ` set results" and "distinct (map url results)"
  shows "distinct (map url rs) \<and>
         (\<forall>u. first_with_url u rs = first_with_url u (results @ candidates E cards))"
  using assms
proof (induction cards arbitrary: results seen)
  case Nil
  then show ?case by simp
next
  case (Cons a cards)
  show ?case
  proof (cases "card_url E a")
    case None
    with Cons.prems(1) have "extract_loop E cards (results, seen) = Inr rs"
      by (simp add: extract_loop_card del: extract_loop.simps)
    from Cons.IH[OF this Cons.prems(2,3)] None show ?thesis by (simp add: candidates_Cons)
  next
    case (Some x)
    show ?thesis
    proof (cases x)
      case (Inl e)
      with Some Cons.prems(1) show ?thesis by (simp add: extract_loop_card del: extract_loop.simps)
    next
      case (Inr u)
      let ?l = "listing_of (unicode_nd E) a u"
      show ?thesis
      proof (cases "u \<in> seen")
        case True
        with Some Inr Cons.prems(1) have "extract_loop E cards (results, seen) = Inr rs"
          by (simp add: extract_loop_card del: extract_loop.simps)
        from Cons.IH[OF this Cons.prems(2,3)]
        have d: "distinct (map url rs)"
          and f: "\<And>v. first_with_url v rs = first_with_url v (results @ candidates E cards)"
          by simp_all
        have "first_with_url v (results @ ?l # candidates E cards) =
              first_with_url v (results @ candidates E cards)" for v
        proof (cases "first_with_url v results")
          case None
          then have "v \<notin> seen" using Cons.prems(2) by (simp add: first_with_url_None)
          with True have "v \<noteq> u" by auto
          then show ?thesis using None by (auto simp: first_with_url_append)
        next
          case (Some r)
          then show ?thesis by (simp add: first_with_url_append)
        qed
        with d f Some Inr show ?thesis by (simp add: candidates_Cons)
      next
        case False
        with Some Inr Cons.prems(1)
        have run: "extract_loop E cards (results @ [?l], insert u seen) = Inr rs"
          by (simp add: extract_loop_card del: extract_loop.simps)
        have s: "insert u seen = url ` set (results @ [?l])" using Cons.prems(2) by auto
        have dd: "distinct (map url (results @ [?l]))" using Cons.prems(2,3) False by auto
        from Cons.IH[OF run s dd] Some Inr show ?thesis by (simp add: candidates_Cons)
      qed
    qed
  qed
qed

lemma extract_listings_first:
  assumes "extract_listings E html = Inr rs"
  shows "distinct (map url rs) \<and>
         (\<forall>u. first_with_url u rs =
               first_with_url u (candidates E (select_cards (html_parser E html))))"
  using extract_loop_first[of E _ "[]" "{}" rs] assms by (simp add: extract_listings_def)

section \<open>C6: the snippet\<close>

text \<open>
  Claim C6. Every record that \<open>extract_listings\<close> returns was built from one of the
  selected anchors, and its snippet is computed from the context text of that anchor:
  absent when the context text is absent (or empty), and otherwise its first 300
  characters. So a snippet that is present has at most 300 characters and equals the
  first 300 characters of the context text.
\<close>

theorem snippet_truncation:
  assumes "extract_listings E html = Inr rs" and "r \<in> set rs"
  shows "\<exists>a\<in>set (select_cards (html_parser E html)).
           r = listing_of (unicode_nd E) a (url r) \<and>
           snippet r =
             (case context_text a of None \<Rightarrow> None
              | Some text \<Rightarrow> if text = [] then None else Some (take 300 text)) \<and>
           (\<forall>s. snippet r = Some s \<longrightarrow>
              length s \<le> 300 \<and> (\<exists>text. context_text a = Some text \<and> s = take 300 text))"
proof -
  from extract_listings_origin[OF assms] obtain a where
    a: "a \<in> set (select_cards (html_parser E html))" and
    r: "r = listing_of (unicode_nd E) a (url r)" by blast
  have eq: "snippet r =
             (case context_text a of None \<Rightarrow> None
              | Some text \<Rightarrow> if text = [] then None else Some (take 300 text))"
    using snippet_listing_of[of "unicode_nd E" a "url r"] r by simp
  have "\<forall>s. snippet r = Some s \<longrightarrow>
              length s \<le> 300 \<and> (\<exists>text. context_text a = Some text \<and> s = take 300 text)"
    using eq by (auto split: option.splits if_splits)
  then have "r = listing_of (unicode_nd E) a (url r) \<and>
           snippet r =
             (case context_text a of None \<Rightarrow> None
              | Some text \<Rightarrow> if text = [] then None else Some (take 300 text)) \<and>
           (\<forall>s. snippet r = Some s \<longrightarrow>
              length s \<le> 300 \<and> (\<exists>text. context_text a = Some text \<and> s = take 300 text))"
    using r eq by (intro conjI)
  with a show ?thesis by (rule bexI[rotated])
qed

theorem snippet_truncation_witness:
  "extract_listings demo_env (ustr ''one'') = Inr [demo_row1] \<and> demo_row1 \<in> set [demo_row1] \<and>
   (\<exists>a\<in>set (select_cards (html_parser demo_env (ustr ''one''))).
      demo_row1 = listing_of (unicode_nd demo_env) a (url demo_row1) \<and>
      snippet demo_row1 =
        (case context_text a of None \<Rightarrow> None
         | Some text \<Rightarrow> if text = [] then None else Some (take 300 text)) \<and>
      (\<forall>s. snippet demo_row1 = Some s \<longrightarrow>
         length s \<le> 300 \<and> (\<exists>text. context_text a = Some text \<and> s = take 300 text)))"
  using snippet_truncation[OF demo_extract_one, of demo_row1] demo_extract_one by simp

section \<open>The loop of the orchestrator\<close>

lemma scrape_pages_append:
  "accumulated E d ps st = Some st' \<Longrightarrow> scrape_pages E d (ps @ qs) st = scrape_pages E d qs st'"
  by (induction ps arbitrary: st) (auto split: outcome.splits)

lemma upto_split_at:
  assumes "1 \<le> p" and "p \<le> m + 1"
  shows "[1..m] = [1..p - 1] @ [p..m]"
proof (cases "p \<le> m")
  case True
  with assms show ?thesis using upto_split1[of 1 p m] by simp
next
  case False
  with assms have "p = m + 1" by simp
  then show ?thesis by simp
qed

lemma scrape_from_accumulated:
  assumes "1 \<le> p" and "p \<le> max_pages + 1"
    and "accumulated E d [1..p - 1] ([], {}, w) = Some st"
  shows "scrape E max_pages d w = scrape_pages E d [p..max_pages] st"
  using scrape_pages_append[OF assms(3), of "[p..max_pages]"] upto_split_at[OF assms(1,2)]
  by (simp add: scrape_def)

lemma fetch_page_failure:
  assumes "failure (session_get E (length (requests w)) u)"
  shows "fst (fetch_page E u w) = None"
    and "requests (snd (fetch_page E u w)) = requests w @ [u]"
    and "stdout (snd (fetch_page E u w)) = stdout w"
    and "files (snd (fetch_page E u w)) = files w"
    and "slept (snd (fetch_page E u w)) = slept w"
  using assms
  by (auto simp: fetch_page_def Let_def print_err_def split: response.splits)

lemma fetch_page_world:
  shows "requests (snd (fetch_page E u w)) = requests w @ [u]"
    and "stdout (snd (fetch_page E u w)) = stdout w"
    and "files (snd (fetch_page E u w)) = files w"
    and "slept (snd (fetch_page E u w)) = slept w"
  by (auto simp: fetch_page_def Let_def print_err_def split: response.splits)

lemma page_step_failure:
  assumes "failure (session_get E (length (requests w)) (next_page_url p))"
  shows "\<exists>w'. page_step E d p (rows, seen, w) = Break w' \<and>
           requests w' = requests w @ [next_page_url p] \<and>
           stdout w' = stdout w @ [fetching_line p, ustr ''[warn] No HTML fetched, stopping.''] \<and>
           files w' = files w \<and> slept w' = slept w"
proof -
  let ?w1 = "print (fetching_line p) w"
  have r: "requests ?w1 = requests w" by (simp add: print_def)
  obtain h w2 where f: "fetch_page E (next_page_url p) ?w1 = (h, w2)" by (cases "fetch_page E (next_page_url p) ?w1")
  from assms r have fl: "failure (session_get E (length (requests ?w1)) (next_page_url p))" by simp
  from fetch_page_failure[OF fl] f
  have "h = None" "requests w2 = requests w @ [next_page_url p]"
    "stdout w2 = stdout w @ [fetching_line p]" "files w2 = files w" "slept w2 = slept w"
    by (simp_all add: print_def)
  with f show ?thesis
    by (simp add: page_step_def Let_def print_def)
qed


lemma page_step_Continue_world:
  assumes "page_step E d p (rows, seen, w) = Continue (rows', seen', w')"
  shows "requests w' = requests w @ [next_page_url p]"
proof -
  let ?w1 = "print (fetching_line p) w"
  obtain h w2 where f: "fetch_page E (next_page_url p) ?w1 = (h, w2)"
    by (cases "fetch_page E (next_page_url p) ?w1")
  have "requests w2 = requests w @ [next_page_url p]"
    using fetch_page_world(1)[of E "next_page_url p" ?w1] f by (simp add: print_def)
  with assms f show ?thesis
    by (auto simp: page_step_def Let_def split: option.splits if_splits sum.splits)
qed

lemma accumulated_requests:
  "accumulated E d ps (rows, seen, w) = Some (rows', seen', w') \<Longrightarrow>
   requests w' = requests w @ map next_page_url ps"
proof (induction ps arbitrary: rows seen w)
  case Nil
  then show ?case by simp
next
  case (Cons p ps)
  from Cons.prems obtain r1 s1 w1 where
    st: "page_step E d p (rows, seen, w) = Continue (r1, s1, w1)" and
    acc: "accumulated E d ps (r1, s1, w1) = Some (rows', seen', w')"
    by (auto split: outcome.splits)
  from Cons.IH[OF acc] page_step_Continue_world[OF st] show ?case by simp
qed

lemma page_step_no_new_rows:
  assumes "session_get E (length (requests w)) (next_page_url p) = Http 200 html"
    and "html \<noteq> []" and "extract_listings E html = Inr rs"
    and "\<forall>r\<in>set rs. url r \<in> seen"
  shows "\<exists>w'. page_step E d p (rows, seen, w) = Break w'"
proof -
  have "filter (\<lambda>r. url r \<notin> seen) rs = []" using assms(4) by (simp add: filter_empty_conv)
  with assms(1-3) show ?thesis
    by (simp add: page_step_def Let_def fetch_page_def print_def)
qed

lemma next_page_url_1: "next_page_url 1 = BASE_URL"
  by (simp add: next_page_url_def)

lemma save_csv_empty:
  "save_csv E [] path w = (Inr (), w\<lparr>stdout := stdout w @ [ustr ''[info] No rows to save.'']\<rparr>)"
  by (simp add: save_csv_def print_def)

lemma extract_loop_env_cong:
  assumes "urljoin E' = urljoin E" and "unicode_nd E' = unicode_nd E"
  shows "extract_loop E' cards st = extract_loop E cards st"
proof (induction cards arbitrary: st)
  case Nil
  show ?case by (cases st) simp
next
  case (Cons a cards)
  show ?case by (cases st) (simp add: assms Cons.IH split: option.splits sum.splits)
qed

lemma extract_listings_env_cong:
  assumes "html_parser E' = html_parser E" and "urljoin E' = urljoin E"
    and "unicode_nd E' = unicode_nd E"
  shows "extract_listings E' html = extract_listings E html"
  by (simp add: extract_listings_def assms(1) extract_loop_env_cong[OF assms(2,3)])

lemma page_step_env_cong:
  assumes "html_parser E' = html_parser E" and "urljoin E' = urljoin E"
    and "unicode_nd E' = unicode_nd E"
    and "session_get E' (length (requests w)) = session_get E (length (requests w))"
  shows "page_step E' d p (rows, seen, w) = page_step E d p (rows, seen, w)"
proof -
  have "requests (print (fetching_line p) w) = requests w" by (simp add: print_def)
  then have f: "fetch_page E' (next_page_url p) (print (fetching_line p) w) =
        fetch_page E (next_page_url p) (print (fetching_line p) w)"
    using assms(4) by (simp add: fetch_page_def)
  have e: "extract_listings E' = extract_listings E"
    by (rule ext) (rule extract_listings_env_cong[OF assms(1-3)])
  show ?thesis unfolding page_step_def e by (simp add: f)
qed

lemma accumulated_env_cong:
  assumes "html_parser E' = html_parser E" and "urljoin E' = urljoin E"
    and "unicode_nd E' = unicode_nd E"
  shows "\<forall>n < length (requests w) + length ps. session_get E' n = session_get E n \<Longrightarrow>
         accumulated E' d ps (rows, seen, w) = accumulated E d ps (rows, seen, w)"
proof (induction ps arbitrary: rows seen w)
  case Nil
  show ?case by simp
next
  case (Cons p ps)
  have here: "session_get E' (length (requests w)) = session_get E (length (requests w))"
    using Cons.prems by simp
  note st = page_step_env_cong[OF assms here, of d p rows seen]
  show ?case
  proof (cases "page_step E d p (rows, seen, w)")
    case (Continue st')
    obtain r1 s1 w1 where st': "st' = (r1, s1, w1)" by (cases st')
    have "length (requests w1) = length (requests w) + 1"
      using page_step_Continue_world[of E d p rows seen w r1 s1 w1] Continue st' by simp
    then have "\<forall>n < length (requests w1) + length ps. session_get E' n = session_get E n"
      using Cons.prems by simp
    from Cons.IH[OF this] show ?thesis using st Continue st' by simp
  qed (simp_all add: st)
qed

lemma page_step_empty_body:
  assumes "session_get E (length (requests w)) (next_page_url p) = Http 200 []"
  shows "\<exists>w'. page_step E d p (rows, seen, w) = Break w' \<and>
           requests w' = requests w @ [next_page_url p] \<and>
           stdout w' = stdout w @ [fetching_line p, ustr ''[warn] No HTML fetched, stopping.''] \<and>
           files w' = files w \<and> slept w' = slept w \<and> stderr w' = stderr w"
  using assms by (simp add: page_step_def fetch_page_def print_def)

lemma scrape_breaks_at:
  assumes "1 \<le> p" and "p \<le> max_pages"
    and "accumulated E d [1..p - 1] ([], {}, w) = Some (rows, seen, wp)"
    and "page_step E d p (rows, seen, wp) = Break w'"
  shows "scrape E max_pages d w = (Inr rows, w')"
proof -
  from assms(2) have "p \<le> max_pages + 1" by simp
  from scrape_from_accumulated[OF assms(1) this assms(3)]
  have "scrape E max_pages d w = scrape_pages E d [p..max_pages] (rows, seen, wp)" .
  also have "[p..max_pages] = p # [p + 1..max_pages]" using assms(2) by (simp add: upto_rec1)
  finally show ?thesis using assms(4) by simp
qed

lemma with_response_fields:
  "html_parser (with_response E n r) = html_parser E"
  "urljoin (with_response E n r) = urljoin E"
  "unicode_nd (with_response E n r) = unicode_nd E"
  "session_get (with_response E n r) n u = r"
  "m \<noteq> n \<Longrightarrow> session_get (with_response E n r) m = session_get E m"
  by (simp_all add: with_response_def fun_eq_iff)

section \<open>C7: what a run returns\<close>

text \<open>
  Claim C7. Let pages \<open>1\<close> to \<open>p - 1\<close> have been processed, leaving \<open>rows\<close>
  accumulated. If the fetch of page \<open>p\<close> fails (a status other than 200, or a transport
  fault), the run returns exactly \<open>rows\<close>, and the last request it made is the one for
  page \<open>p\<close>. The same rows are returned when page \<open>p\<close> has no new row, when the loop
  breaks at page \<open>p\<close> for any reason, and when the page budget is exhausted.
\<close>

theorem scrape_returns_accumulated:
  assumes "1 \<le> p"
    and "accumulated E d [1..p - 1] ([], {}, w) = Some (rows, seen, wp)"
  shows "(p \<le> max_pages \<and> failure (session_get E (length (requests wp)) (next_page_url p)) \<longrightarrow>
            fst (scrape E max_pages d w) = Inr rows \<and>
            requests (snd (scrape E max_pages d w)) = requests w @ map next_page_url [1..p]) \<and>
         (\<forall>html rs. p \<le> max_pages \<and>
            session_get E (length (requests wp)) (next_page_url p) = Http 200 html \<and>
            html \<noteq> [] \<and> extract_listings E html = Inr rs \<and> (\<forall>r\<in>set rs. url r \<in> seen) \<longrightarrow>
            fst (scrape E max_pages d w) = Inr rows) \<and>
         (\<forall>w'. p \<le> max_pages \<and> page_step E d p (rows, seen, wp) = Break w' \<longrightarrow>
            scrape E max_pages d w = (Inr rows, w')) \<and>
         (p = max_pages + 1 \<longrightarrow> scrape E max_pages d w = (Inr rows, wp))"
proof -
  have brk: "scrape E max_pages d w = (Inr rows, w')"
    if "p \<le> max_pages" and "page_step E d p (rows, seen, wp) = Break w'" for w'
  proof -
    from that(1) have "p \<le> max_pages + 1" by simp
    from scrape_from_accumulated[OF assms(1) this assms(2)]
    have "scrape E max_pages d w = scrape_pages E d [p..max_pages] (rows, seen, wp)" .
    also have "[p..max_pages] = p # [p + 1..max_pages]" using that(1) by (simp add: upto_rec1)
    finally show ?thesis using that(2) by simp
  qed
  have reqs: "requests wp = requests w @ map next_page_url [1..p - 1]"
    using accumulated_requests[OF assms(2)] .
  have up: "[1..p] = [1..p - 1] @ [p]" using assms(1) by (simp add: upto_rec2)
  have a: "fst (scrape E max_pages d w) = Inr rows \<and>
            requests (snd (scrape E max_pages d w)) = requests w @ map next_page_url [1..p]"
    if "p \<le> max_pages" and "failure (session_get E (length (requests wp)) (next_page_url p))"
  proof -
    from page_step_failure[OF that(2), of d rows seen] obtain w' where
      "page_step E d p (rows, seen, wp) = Break w'" and
      "requests w' = requests wp @ [next_page_url p]" by blast
    with brk[OF that(1)] reqs up show ?thesis by simp
  qed
  have b: "fst (scrape E max_pages d w) = Inr rows"
    if "p \<le> max_pages" and "session_get E (length (requests wp)) (next_page_url p) = Http 200 html"
      and "html \<noteq> []" and "extract_listings E html = Inr rs" and "\<forall>r\<in>set rs. url r \<in> seen"
    for html rs
  proof -
    from page_step_no_new_rows[OF that(2-5), of d rows] obtain w' where
      "page_step E d p (rows, seen, wp) = Break w'" by blast
    with brk[OF that(1)] show ?thesis by simp
  qed
  have c: "scrape E max_pages d w = (Inr rows, wp)" if "p = max_pages + 1"
  proof -
    from that have "p \<le> max_pages + 1" by simp
    from scrape_from_accumulated[OF assms(1) this assms(2)] that show ?thesis by simp
  qed
  show ?thesis using a b c brk by blast
qed



theorem scrape_returns_accumulated_witness:
  "(1::int) \<le> 3 \<and>
   map_option fst (accumulated demo_env (3 / 2) [1..3 - 1] ([], {}, demo_world)) =
     Some [demo_row1, demo_row2] \<and>
   fst (scrape demo_env 5 (3 / 2) demo_world) = Inr [demo_row1, demo_row2] \<and>
   requests (snd (scrape demo_env 5 (3 / 2) demo_world)) =
     requests demo_world @ map next_page_url [1..3] \<and>
   fst (scrape demo_env 2 (3 / 2) demo_world) = Inr [demo_row1, demo_row2]"
proof -
  obtain seen wp where
    acc: "accumulated demo_env (3 / 2) [1..3 - 1] ([], {}, demo_world) =
            Some ([demo_row1, demo_row2], seen, wp)"
    using demo_acc_rows
    by (cases "accumulated demo_env (3 / 2) [1..3 - 1] ([], {}, demo_world)") auto
  have len: "length (requests wp) = 2"
    using accumulated_requests[OF acc] demo_requests_two by simp
  have fl: "failure (session_get demo_env (length (requests wp)) (next_page_url 3))"
    by (simp add: len demo_env_def)
  have one: "(1::int) \<le> 3" by simp
  from scrape_returns_accumulated[OF one acc, of 5] fl
  have "fst (scrape demo_env 5 (3 / 2) demo_world) = Inr [demo_row1, demo_row2] \<and>
        requests (snd (scrape demo_env 5 (3 / 2) demo_world)) =
          requests demo_world @ map next_page_url [1..3]" by simp
  moreover from scrape_returns_accumulated[OF one acc, of 2]
  have "fst (scrape demo_env 2 (3 / 2) demo_world) = Inr [demo_row1, demo_row2]" by simp
  ultimately show ?thesis using demo_acc_rows by simp
qed

section \<open>C8: a run whose first page fails\<close>

text \<open>
  Claim C8. If the fetch of page 1 fails, \<open>scrape\<close> stops at page 1 (its only request is
  the one for page 1) and returns the empty sequence; \<open>save_csv\<close> on an empty sequence
  prints the notice that there are no rows and leaves every file as it was. For the
  script as a whole: nothing is written, and the notice is printed.
\<close>

theorem first_page_failure:
  assumes "1 \<le> max_pages"
    and "failure (session_get E (length (requests w)) BASE_URL)"
  shows "fst (scrape E max_pages d w) = Inr [] \<and>
         requests (snd (scrape E max_pages d w)) = requests w @ [BASE_URL] \<and>
         files (snd (scrape E max_pages d w)) = files w \<and>
         (\<forall>path w'. save_csv E [] path w' =
            (Inr (), w'\<lparr>stdout := stdout w' @ [ustr ''[info] No rows to save.'']\<rparr>) \<and>
            files (snd (save_csv E [] path w')) = files w') \<and>
         (\<forall>argv. cli_max_pages E argv = max_pages \<longrightarrow>
            fst (main E argv w) = Inr () \<and>
            files (snd (main E argv w)) = files w \<and>
            requests (snd (main E argv w)) = requests w @ [BASE_URL] \<and>
            stdout (snd (main E argv w)) =
              stdout w @ [fetching_line 1, ustr ''[warn] No HTML fetched, stopping.'',
                          ustr ''[info] No rows to save.'', ustr ''[done]''])"
proof -
  have step: "\<exists>w'. page_step E d' 1 ([], {}, w) = Break w' \<and>
           requests w' = requests w @ [BASE_URL] \<and>
           stdout w' = stdout w @ [fetching_line 1, ustr ''[warn] No HTML fetched, stopping.''] \<and>
           files w' = files w" for d'
    using page_step_failure[of E w 1 d' "[]" "{}"] assms(2) by (auto simp: next_page_url_1)
  have run: "\<exists>w'. scrape E max_pages d' w = (Inr [], w') \<and>
           requests w' = requests w @ [BASE_URL] \<and>
           stdout w' = stdout w @ [fetching_line 1, ustr ''[warn] No HTML fetched, stopping.''] \<and>
           files w' = files w" for d'
  proof -
    from step[of d'] obtain w' where w': "page_step E d' 1 ([], {}, w) = Break w'"
      "requests w' = requests w @ [BASE_URL]"
      "stdout w' = stdout w @ [fetching_line 1, ustr ''[warn] No HTML fetched, stopping.'']"
      "files w' = files w" by blast
    have "[1..max_pages] = 1 # [2..max_pages]" using assms(1) by (simp add: upto_rec1)
    then have "scrape E max_pages d' w = (Inr [], w')" using w'(1) by (simp add: scrape_def)
    with w' show ?thesis by blast
  qed
  have m: "fst (main E argv w) = Inr () \<and>
            files (snd (main E argv w)) = files w \<and>
            requests (snd (main E argv w)) = requests w @ [BASE_URL] \<and>
            stdout (snd (main E argv w)) =
              stdout w @ [fetching_line 1, ustr ''[warn] No HTML fetched, stopping.'',
                          ustr ''[info] No rows to save.'', ustr ''[done]'']"
    if "cli_max_pages E argv = max_pages" for argv
  proof -
    from run[of "18 / 10"] obtain w' where w': "scrape E max_pages (18 / 10) w = (Inr [], w')"
      "requests w' = requests w @ [BASE_URL]"
      "stdout w' = stdout w @ [fetching_line 1, ustr ''[warn] No HTML fetched, stopping.'']"
      "files w' = files w" by blast
    then show ?thesis using that by (simp add: main_def save_csv_empty print_def)
  qed
  from run[of d] have "fst (scrape E max_pages d w) = Inr [] \<and>
         requests (snd (scrape E max_pages d w)) = requests w @ [BASE_URL] \<and>
         files (snd (scrape E max_pages d w)) = files w" by auto
  moreover have "\<forall>path w'. save_csv E [] path w' =
            (Inr (), w'\<lparr>stdout := stdout w' @ [ustr ''[info] No rows to save.'']\<rparr>) \<and>
            files (snd (save_csv E [] path w')) = files w'"
    by (simp add: save_csv_empty)
  ultimately show ?thesis using m by blast
qed

theorem first_page_failure_witness:
  "(1::int) \<le> 5 \<and>
   failure (session_get demo_env_down (length (requests demo_world)) BASE_URL) \<and>
   fst (scrape demo_env_down 5 (3 / 2) demo_world) = Inr [] \<and>
   requests (snd (scrape demo_env_down 5 (3 / 2) demo_world)) = [BASE_URL] \<and>
   files (snd (save_csv demo_env_down [] OUTPUT_CSV (snd (scrape demo_env_down 5 (3 / 2) demo_world))))
     OUTPUT_CSV = None \<and>
   cli_max_pages demo_env_down [ustr ''olx_scrapper.py''] = 5 \<and>
   files (snd (main demo_env_down [ustr ''olx_scrapper.py''] demo_world)) OUTPUT_CSV = None \<and>
   stdout (snd (main demo_env_down [ustr ''olx_scrapper.py''] demo_world)) =
     [fetching_line 1, ustr ''[warn] No HTML fetched, stopping.'',
      ustr ''[info] No rows to save.'', ustr ''[done]'']"
proof -
  have one: "(1::int) \<le> 5" by simp
  from first_page_failure[OF one demo_down_first, of "3 / 2"] demo_cli demo_down_first
  show ?thesis by (simp add: demo_world_def)
qed

section \<open>C10: a page that is fetched and has an empty body\<close>

text \<open>
  Claim C10. Let pages \<open>1\<close> to \<open>p - 1\<close> have been processed and let the server answer
  the request for page \<open>p\<close> with status 200 and an empty body. The fetch succeeds: it
  returns the empty body and writes nothing to the error stream. The run nevertheless
  prints the line that no HTML was fetched, makes no further request and returns the rows
  accumulated from the pages before. Had the same request failed instead, the run would
  have returned the same rows, printed the same lines, made the same requests, slept as
  often and left the same files.
\<close>

theorem empty_body_is_a_failure:
  assumes "1 \<le> p" and "p \<le> max_pages"
    and "accumulated E d [1..p - 1] ([], {}, w) = Some (rows, seen, wp)"
    and "session_get E (length (requests wp)) (next_page_url p) = Http 200 []"
  shows "fst (fetch_page E (next_page_url p) (print (fetching_line p) wp)) = Some [] \<and>
         stderr (snd (fetch_page E (next_page_url p) (print (fetching_line p) wp))) = stderr wp \<and>
         fst (scrape E max_pages d w) = Inr rows \<and>
         requests (snd (scrape E max_pages d w)) = requests w @ map next_page_url [1..p] \<and>
         stdout (snd (scrape E max_pages d w)) =
           stdout wp @ [fetching_line p, ustr ''[warn] No HTML fetched, stopping.''] \<and>
         (\<forall>r. failure r \<longrightarrow>
            fst (scrape (with_response E (length (requests wp)) r) max_pages d w) =
              fst (scrape E max_pages d w) \<and>
            stdout (snd (scrape (with_response E (length (requests wp)) r) max_pages d w)) =
              stdout (snd (scrape E max_pages d w)) \<and>
            requests (snd (scrape (with_response E (length (requests wp)) r) max_pages d w)) =
              requests (snd (scrape E max_pages d w)) \<and>
            files (snd (scrape (with_response E (length (requests wp)) r) max_pages d w)) =
              files (snd (scrape E max_pages d w)) \<and>
            slept (snd (scrape (with_response E (length (requests wp)) r) max_pages d w)) =
              slept (snd (scrape E max_pages d w)))"
proof -
  let ?n = "length (requests wp)"
  have fetch: "fst (fetch_page E (next_page_url p) (print (fetching_line p) wp)) = Some [] \<and>
         stderr (snd (fetch_page E (next_page_url p) (print (fetching_line p) wp))) = stderr wp"
    using assms(4) by (simp add: fetch_page_def print_def)
  from page_step_empty_body[OF assms(4), of d rows seen] obtain w' where
    w': "page_step E d p (rows, seen, wp) = Break w'"
      "requests w' = requests wp @ [next_page_url p]"
      "stdout w' = stdout wp @ [fetching_line p, ustr ''[warn] No HTML fetched, stopping.'']"
      "files w' = files wp" "slept w' = slept wp" by blast
  have run: "scrape E max_pages d w = (Inr rows, w')"
    using scrape_breaks_at[OF assms(1-3) w'(1)] .
  have reqs: "requests wp = requests w @ map next_page_url [1..p - 1]"
    using accumulated_requests[OF assms(3)] .
  have up: "[1..p] = [1..p - 1] @ [p]" using assms(1) by (simp add: upto_rec2)
  have same: "fst (scrape (with_response E ?n r) max_pages d w) = fst (scrape E max_pages d w) \<and>
            stdout (snd (scrape (with_response E ?n r) max_pages d w)) =
              stdout (snd (scrape E max_pages d w)) \<and>
            requests (snd (scrape (with_response E ?n r) max_pages d w)) =
              requests (snd (scrape E max_pages d w)) \<and>
            files (snd (scrape (with_response E ?n r) max_pages d w)) =
              files (snd (scrape E max_pages d w)) \<and>
            slept (snd (scrape (with_response E ?n r) max_pages d w)) =
              slept (snd (scrape E max_pages d w))"
    if "failure r" for r
  proof -
    let ?E = "with_response E ?n r"
    have "length (requests w) + length [1..p - 1] = ?n" using reqs by simp
    then have "\<forall>m < length (requests w) + length [1..p - 1]. session_get ?E m = session_get E m"
      using with_response_fields(5)[of _ ?n E r] by simp
    from accumulated_env_cong[OF with_response_fields(1-3) this, of d "[]" "{}"] assms(3)
    have acc': "accumulated ?E d [1..p - 1] ([], {}, w) = Some (rows, seen, wp)" by simp
    have "failure (session_get ?E ?n (next_page_url p))"
      using that by (simp add: with_response_fields(4))
    from page_step_failure[OF this, of d rows seen] obtain w'' where
      w'': "page_step ?E d p (rows, seen, wp) = Break w''"
        "requests w'' = requests wp @ [next_page_url p]"
        "stdout w'' = stdout wp @ [fetching_line p, ustr ''[warn] No HTML fetched, stopping.'']"
        "files w'' = files wp" "slept w'' = slept wp" by blast
    have "scrape ?E max_pages d w = (Inr rows, w'')"
      using scrape_breaks_at[OF assms(1,2) acc' w''(1)] .
    with run w' w'' show ?thesis by simp
  qed
  from run w' reqs up have "fst (scrape E max_pages d w) = Inr rows \<and>
         requests (snd (scrape E max_pages d w)) = requests w @ map next_page_url [1..p] \<and>
         stdout (snd (scrape E max_pages d w)) =
           stdout wp @ [fetching_line p, ustr ''[warn] No HTML fetched, stopping.'']" by simp
  with fetch same show ?thesis by blast
qed


theorem empty_body_is_a_failure_witness:
  "(1::int) \<le> 2 \<and> (2::int) \<le> 5 \<and>
   map_option fst (accumulated demo_env_empty (3 / 2) [1..2 - 1] ([], {}, demo_world)) =
     Some [demo_row1] \<and>
   fst (scrape demo_env_empty 5 (3 / 2) demo_world) = Inr [demo_row1] \<and>
   requests (snd (scrape demo_env_empty 5 (3 / 2) demo_world)) =
     requests demo_world @ map next_page_url [1..2] \<and>
   failure (Http 404 []) \<and>
   fst (scrape (with_response demo_env_empty 1 (Http 404 [])) 5 (3 / 2) demo_world) =
     fst (scrape demo_env_empty 5 (3 / 2) demo_world) \<and>
   stdout (snd (scrape (with_response demo_env_empty 1 (Http 404 [])) 5 (3 / 2) demo_world)) =
     stdout (snd (scrape demo_env_empty 5 (3 / 2) demo_world))"
proof -
  obtain seen wp where
    acc: "accumulated demo_env_empty (3 / 2) [1..2 - 1] ([], {}, demo_world) =
            Some ([demo_row1], seen, wp)"
    using demo_empty_acc_rows
    by (cases "accumulated demo_env_empty (3 / 2) [1..2 - 1] ([], {}, demo_world)") auto
  have len: "length (requests wp) = 1"
    using accumulated_requests[OF acc] demo_requests_one by simp
  have body: "session_get demo_env_empty (length (requests wp)) (next_page_url 2) = Http 200 []"
    by (simp add: len demo_env_empty_def)
  have le1: "(1::int) \<le> 2" and le2: "(2::int) \<le> 5" by simp_all
  have fl: "failure (Http 404 [])" by simp
  from empty_body_is_a_failure[OF le1 le2 acc body] fl len demo_empty_acc_rows
  show ?thesis by simp
qed

section \<open>First occurrences across pages\<close>

lemma page_step_requests:
  "page_step E d p (rows, seen, w) = Break w' \<Longrightarrow> requests w' = requests w @ [next_page_url p]"
  "page_step E d p (rows, seen, w) = Raised e w' \<Longrightarrow> requests w' = requests w @ [next_page_url p]"
proof -
  let ?w1 = "print (fetching_line p) w"
  obtain h w2 where f: "fetch_page E (next_page_url p) ?w1 = (h, w2)"
    by (cases "fetch_page E (next_page_url p) ?w1")
  have r: "requests w2 = requests w @ [next_page_url p]"
    using fetch_page_world(1)[of E "next_page_url p" ?w1] f by (simp add: print_def)
  show "page_step E d p (rows, seen, w) = Break w' \<Longrightarrow> requests w' = requests w @ [next_page_url p]"
    using f r by (auto simp: page_step_def Let_def print_def split: option.splits if_splits sum.splits)
  show "page_step E d p (rows, seen, w) = Raised e w' \<Longrightarrow> requests w' = requests w @ [next_page_url p]"
    using f r by (auto simp: page_step_def Let_def print_def split: option.splits if_splits sum.splits)
qed

lemma scrape_pages_requests:
  "scrape_pages E d ps (rows, seen, w) = (res, w') \<Longrightarrow> \<exists>ext. requests w' = requests w @ ext"
proof (induction ps arbitrary: rows seen w)
  case Nil
  then show ?case by simp
next
  case (Cons p ps)
  show ?case
  proof (cases "page_step E d p (rows, seen, w)")
    case (Break w1)
    with Cons.prems page_step_requests(1)[OF Break] show ?thesis by auto
  next
    case (Raised e w1)
    with Cons.prems page_step_requests(2)[OF Raised] show ?thesis by auto
  next
    case (Continue st')
    obtain r1 s1 w1 where st': "st' = (r1, s1, w1)" by (cases st')
    from Cons.prems Continue st' have "scrape_pages E d ps (r1, s1, w1) = (res, w')" by simp
    from Cons.IH[OF this] page_step_Continue_world[of E d p rows seen w r1 s1 w1] Continue st'
    show ?thesis by auto
  qed
qed

lemma fetched_bodies_same [simp]: "fetched_bodies E w w = []"
  by (simp add: fetched_bodies_def)

lemma fetched_bodies_step:
  assumes "requests w1 = requests w @ [u]" and "requests w' = requests w1 @ ext"
  shows "fetched_bodies E w w' =
           page_body (session_get E (length (requests w)) u) @ fetched_bodies E w1 w'"
proof -
  let ?n = "length (requests w)"
  have len: "length (requests w1) = Suc ?n" "length (requests w') = Suc ?n + length ext"
    using assms by simp_all
  have nth: "requests w' ! ?n = u" using assms by (simp add: nth_append)
  have "?n < length (requests w')" using len by simp
  then have "[?n ..< length (requests w')] = ?n # [Suc ?n ..< length (requests w')]"
    by (rule upt_conv_Cons)
  then show ?thesis using len nth by (simp add: fetched_bodies_def)
qed

lemma page_step_Break_body:
  assumes "page_step E d p (rows, seen, w) = Break w'"
  shows "page_body (session_get E (length (requests w)) (next_page_url p)) = [] \<or>
         (\<exists>html rs. page_body (session_get E (length (requests w)) (next_page_url p)) = [html] \<and>
            extract_listings E html = Inr rs \<and> (\<forall>x\<in>set rs. url x \<in> seen))"
  using assms
  by (auto simp: page_step_def fetch_page_def print_def Let_def filter_empty_conv
           split: response.splits if_splits sum.splits)

lemma page_step_Continue_body:
  assumes "page_step E d p (rows, seen, w) = Continue (rows', seen', w')"
  shows "\<exists>html rs. page_body (session_get E (length (requests w)) (next_page_url p)) = [html] \<and>
            extract_listings E html = Inr rs \<and>
            rows' = rows @ filter (\<lambda>r. url r \<notin> seen) rs \<and>
            seen' = seen \<union> set (map url (filter (\<lambda>r. url r \<notin> seen) rs))"
  using assms
  by (auto simp: page_step_def fetch_page_def print_def Let_def
           split: response.splits if_splits sum.splits)


lemma run_candidates_step:
  assumes "requests w1 = requests w @ [u]" and "requests w' = requests w1 @ ext"
    and "page_body (session_get E (length (requests w)) u) = [html]"
  shows "run_candidates E w w' =
           candidates E (select_cards (html_parser E html)) @ run_candidates E w1 w'"
  using fetched_bodies_step[OF assms(1,2), of E] assms(3) by (simp add: run_candidates_def)

lemma run_candidates_skip:
  assumes "requests w1 = requests w @ [u]" and "requests w' = requests w1 @ ext"
    and "page_body (session_get E (length (requests w)) u) = []"
  shows "run_candidates E w w' = run_candidates E w1 w'"
  using fetched_bodies_step[OF assms(1,2), of E] assms(3) by (simp add: run_candidates_def)

lemma run_candidates_same [simp]: "run_candidates E w w = []"
  by (simp add: run_candidates_def)

lemma first_with_url_seen_page:
  assumes "extract_listings E html = Inr rs" and "\<forall>x\<in>set rs. url x \<in> url ` set rows"
  shows "first_with_url u (rows @ candidates E (select_cards (html_parser E html))) =
         first_with_url u rows"
proof (cases "first_with_url u rows")
  case None
  then have nu: "u \<notin> url ` set rows" by (simp add: first_with_url_None)
  have "first_with_url u rs = None"
  proof (rule ccontr)
    assume "first_with_url u rs \<noteq> None"
    then obtain r where "first_with_url u rs = Some r" by auto
    from first_with_url_Some[OF this] assms(2) nu show False by auto
  qed
  with extract_listings_first[OF assms(1)] None show ?thesis
    by (simp add: first_with_url_append)
next
  case (Some r)
  then show ?thesis by (simp add: first_with_url_append)
qed

lemma first_with_url_new_rows:
  assumes "extract_listings E html = Inr rs" and "seen = url ` set rows"
  shows "first_with_url u (rows @ filter (\<lambda>r. url r \<notin> seen) rs @ rest) =
         first_with_url u (rows @ candidates E (select_cards (html_parser E html)) @ rest)"
proof (cases "first_with_url u rows")
  case None
  then have "u \<notin> seen" using assms(2) by (simp add: first_with_url_None)
  from first_with_url_filter[OF this, of rs] extract_listings_first[OF assms(1)] None
  show ?thesis by (simp add: first_with_url_append)
next
  case (Some r)
  then show ?thesis by (simp add: first_with_url_append)
qed

lemma scrape_pages_first:
  assumes "scrape_pages E d ps (rows, seen, w) = (Inr rows', w')"
    and "seen = url ` set rows" and "distinct (map url rows)"
  shows "distinct (map url rows') \<and>
         (\<forall>u. first_with_url u rows' = first_with_url u (rows @ run_candidates E w w'))"
  using assms
proof (induction ps arbitrary: rows seen w)
  case Nil
  then show ?case by simp
next
  case (Cons p ps)
  let ?r = "session_get E (length (requests w)) (next_page_url p)"
  show ?case
  proof (cases "page_step E d p (rows, seen, w)")
    case (Break w1)
    with Cons.prems(1) have eq: "rows' = rows" "w' = w1" by simp_all
    have rq: "requests w1 = requests w @ [next_page_url p]" "requests w1 = requests w1 @ []"
      using page_step_requests(1)[OF Break] by simp_all
    from page_step_Break_body[OF Break]
    have "\<forall>u. first_with_url u (rows @ run_candidates E w w1) = first_with_url u rows"
    proof
      assume "page_body ?r = []"
      from run_candidates_skip[OF rq this] show ?thesis by simp
    next
      assume "\<exists>html rs. page_body ?r = [html] \<and> extract_listings E html = Inr rs \<and>
                (\<forall>x\<in>set rs. url x \<in> seen)"
      then obtain html rs where h: "page_body ?r = [html]" "extract_listings E html = Inr rs"
        "\<forall>x\<in>set rs. url x \<in> url ` set rows" using Cons.prems(2) by auto
      from run_candidates_step[OF rq h(1)] first_with_url_seen_page[OF h(2,3)]
      show ?thesis by simp
    qed
    with eq Cons.prems(3) show ?thesis by simp
  next
    case (Raised e w1)
    with Cons.prems(1) show ?thesis by simp
  next
    case (Continue st')
    obtain r1 s1 w1 where st': "st' = (r1, s1, w1)" by (cases st')
    with Continue have c: "page_step E d p (rows, seen, w) = Continue (r1, s1, w1)" by simp
    from Cons.prems(1) c have run: "scrape_pages E d ps (r1, s1, w1) = (Inr rows', w')" by simp
    from page_step_Continue_body[OF c] obtain html rs where
      h: "page_body ?r = [html]" "extract_listings E html = Inr rs"
         "r1 = rows @ filter (\<lambda>r. url r \<notin> seen) rs"
         "s1 = seen \<union> set (map url (filter (\<lambda>r. url r \<notin> seen) rs))" by blast
    have rq1: "requests w1 = requests w @ [next_page_url p]"
      using page_step_Continue_world[OF c] .
    from scrape_pages_requests[OF run] obtain ext where rq2: "requests w' = requests w1 @ ext" ..
    have s1: "s1 = url ` set r1" using h(3,4) Cons.prems(2) by auto
    have "distinct (map url rs)" using extract_listings_first[OF h(2)] by simp
    then have "distinct (map url (filter (\<lambda>r. url r \<notin> seen) rs))"
      by (simp add: distinct_map_filter)
    then have d1: "distinct (map url r1)" using h(3) Cons.prems(2,3)
      by (auto simp: image_iff)
    from Cons.IH[OF run s1 d1]
    have d: "distinct (map url rows')"
      and f: "\<And>u. first_with_url u rows' = first_with_url u (r1 @ run_candidates E w1 w')"
      by simp_all
    have "first_with_url u rows' = first_with_url u (rows @ run_candidates E w w')" for u
      using f[of u] first_with_url_new_rows[OF h(2) Cons.prems(2), of u "run_candidates E w1 w'"]
        run_candidates_step[OF rq1 rq2 h(1)] h(3) by simp
    with d show ?thesis by simp
  qed
qed

section \<open>C1: no URL twice, the first record wins\<close>

text \<open>
  Claim C1. The records that \<open>extract_listings\<close> returns for a page have pairwise
  different URLs, and for every URL the record returned is the first of the records
  that the anchors of the page give for it. The records that \<open>scrape\<close> returns have
  pairwise different URLs too, and for every URL the record returned is the first that
  the anchors of the pages processed in the run give for it, in the order of the pages.
\<close>

theorem first_occurrence_wins:
  "(\<forall>html rs. extract_listings E html = Inr rs \<longrightarrow>
      distinct (map url rs) \<and>
      (\<forall>u. first_with_url u rs =
            first_with_url u (candidates E (select_cards (html_parser E html))))) \<and>
   (\<forall>rows w'. scrape E max_pages d w = (Inr rows, w') \<longrightarrow>
      distinct (map url rows) \<and>
      (\<forall>u. first_with_url u rows = first_with_url u (run_candidates E w w')))"
proof -
  have "distinct (map url rows) \<and>
      (\<forall>u. first_with_url u rows = first_with_url u (run_candidates E w w'))"
    if "scrape E max_pages d w = (Inr rows, w')" for rows w'
    using scrape_pages_first[of E d "[1..max_pages]" "[]" "{}" w rows w'] that
    by (simp add: scrape_def)
  then show ?thesis using extract_listings_first by blast
qed


theorem first_occurrence_wins_witness:
  "extract_listings demo_env (ustr ''one'') = Inr [demo_row1] \<and>
   map url (candidates demo_env (select_cards (html_parser demo_env (ustr ''one'')))) =
     [url demo_row1, url demo_row1] \<and>
   first_with_url (url demo_row1)
     (candidates demo_env (select_cards (html_parser demo_env (ustr ''one'')))) = Some demo_row1 \<and>
   fst (scrape demo_env 5 (3 / 2) demo_world) = Inr [demo_row1, demo_row2] \<and>
   map url (run_candidates demo_env demo_world (snd (scrape demo_env 5 (3 / 2) demo_world))) =
     [url demo_row1, url demo_row1, url demo_row1, url demo_row2] \<and>
   distinct (map url [demo_row1, demo_row2]) \<and>
   first_with_url (url demo_row1)
     (run_candidates demo_env demo_world (snd (scrape demo_env 5 (3 / 2) demo_world))) =
     Some demo_row1 \<and>
   first_with_url (url demo_row2)
     (run_candidates demo_env demo_world (snd (scrape demo_env 5 (3 / 2) demo_world))) =
     Some demo_row2"
proof -
  let ?w' = "snd (scrape demo_env 5 (3 / 2) demo_world)"
  have run: "scrape demo_env 5 (3 / 2) demo_world = (Inr [demo_row1, demo_row2], ?w')"
    using demo_scrape_rows by (simp add: prod_eq_iff)
  have ne: "url demo_row1 \<noteq> url demo_row2" by (simp add: demo_row1_def demo_row2_def ustr_def)
  note th = first_occurrence_wins[of demo_env 5 "3 / 2" demo_world]
  from th demo_extract_one
  have a: "first_with_url (url demo_row1) [demo_row1] =
      first_with_url (url demo_row1)
        (candidates demo_env (select_cards (html_parser demo_env (ustr ''one''))))"
    by blast
  from th run
  have b: "distinct (map url [demo_row1, demo_row2]) \<and>
      (\<forall>u. first_with_url u [demo_row1, demo_row2] = first_with_url u (run_candidates demo_env demo_world ?w'))"
    by blast
  from b have b1: "first_with_url (url demo_row1) (run_candidates demo_env demo_world ?w') = Some demo_row1"
    by (metis first_with_url_Cons)
  from b ne have b2: "first_with_url (url demo_row2) (run_candidates demo_env demo_world ?w') = Some demo_row2"
    by (metis first_with_url_Cons)
  from a have a1: "first_with_url (url demo_row1)
     (candidates demo_env (select_cards (html_parser demo_env (ustr ''one'')))) = Some demo_row1"
    by simp
  show ?thesis
    using demo_extract_one demo_candidates_one demo_scrape_rows demo_run_candidates a1 b b1 b2
    by (intro conjI) blast+
qed

section \<open>C2: the URL of a record\<close>







section \<open>C5: the context text\<close>

lemma descendants_tags:
  "e \<in> set (descendants anc tree) \<Longrightarrow> list_all is_tag anc \<Longrightarrow>
   snd e \<noteq> [] \<and> list_all is_tag (snd e)"
proof (induction anc tree arbitrary: e rule: descendants.induct)
  case (1 anc nm ats cs)
  from "1.prems"(1) obtain c where c: "c \<in> set cs"
    and e: "e = (c, Tag nm ats cs # anc) \<or> e \<in> set (descendants (Tag nm ats cs # anc) c)"
    by auto
  from e show ?case
  proof
    assume "e = (c, Tag nm ats cs # anc)"
    with "1.prems"(2) show ?thesis by simp
  next
    assume "e \<in> set (descendants (Tag nm ats cs # anc) c)"
    from "1.IH"[OF c this] "1.prems"(2) show ?thesis by simp
  qed
qed simp_all

lemma select_cards_tags:
  assumes "a \<in> set (select_cards soup)"
  shows "is_tag (fst a)" and "snd a \<noteq> []" and "list_all is_tag (snd a)"
proof -
  from assms have d: "a \<in> set (descendants [] soup)" and c: "is_card (fst a)"
    by (simp_all add: select_cards_def)
  from c show "is_tag (fst a)" by (cases "fst a") simp_all
  from descendants_tags[OF d] show "snd a \<noteq> []" and "list_all is_tag (snd a)" by simp_all
qed

lemma is_tag_bool: "is_tag n \<Longrightarrow> node_bool n"
  by (cases n) simp_all

lemma bubble_tags:
  "is_tag n \<Longrightarrow> list_all is_tag anc \<Longrightarrow>
   bubble k (n, anc) = ((n # anc) ! min k (length anc), drop (min k (length anc)) anc)"
proof (induction k arbitrary: n anc)
  case 0
  show ?case by simp
next
  case (Suc k)
  show ?case
  proof (cases anc)
    case Nil
    then show ?thesis by simp
  next
    case (Cons p rest)
    with Suc.prems have "is_tag p" "list_all is_tag rest" by simp_all
    from Suc.IH[OF this] Cons Suc.prems(1) \<open>is_tag p\<close>
    show ?thesis by (simp add: is_tag_bool)
  qed
qed

lemma context_text_tags:
  assumes "is_tag (fst a)" and "list_all is_tag (snd a)"
  shows "context_text a = Some (get_text (ancestor_at (min 3 (length (snd a))) a))"
proof -
  obtain n anc where a: "a = (n, anc)" by (cases a)
  let ?k = "min 3 (length anc)"
  have b: "bubble 3 (n, anc) = ((n # anc) ! ?k, drop ?k anc)"
    using bubble_tags[of n anc 3] assms a by simp
  have "?k < length (n # anc)" by simp
  moreover have "list_all is_tag (n # anc)" using assms a by simp
  ultimately have "is_tag ((n # anc) ! ?k)" unfolding list_all_length by blast
  then have "node_bool ((n # anc) ! ?k)" by (rule is_tag_bool)
  with b a show ?thesis by (simp add: context_text_def ancestor_at_def)
qed

lemma listing_of_context:
  assumes "context_text a = Some text"
  shows "snippet (listing_of nd a u) = (if text = [] then None else Some (take 300 text))"
    and "price_guess (listing_of nd a u) = price_of nd text"
    and "location_guess (listing_of nd a u) = location_of text"
  using assms by (simp_all add: listing_of_def Let_def)

text \<open>
  Claim C5, as the code has it. Every record that \<open>extract_listings\<close> returns was built
  from a selected anchor. The anchor has at least one node above it (the document), and
  its context text is the visible text of the node that \<open>min 3 n\<close> parent links lead to,
  where \<open>n\<close> is the number of nodes above the anchor: the walk stops early at the
  document. The context text is therefore never absent. The snippet is absent exactly
  when this text is empty, and the price and location guesses are what the two patterns
  find in it.
\<close>

theorem context_text_walk:
  assumes "extract_listings E html = Inr rs" and "r \<in> set rs"
  shows "\<exists>a\<in>set (select_cards (html_parser E html)). \<exists>text.
           r = listing_of (unicode_nd E) a (url r) \<and>
           snd a \<noteq> [] \<and>
           text = get_text (ancestor_at (min 3 (length (snd a))) a) \<and>
           context_text a = Some text \<and>
           snippet r = (if text = [] then None else Some (take 300 text)) \<and>
           price_guess r = price_of (unicode_nd E) text \<and>
           location_guess r = location_of text"
proof -
  from extract_listings_origin[OF assms] obtain a where
    a: "a \<in> set (select_cards (html_parser E html))" and
    r: "r = listing_of (unicode_nd E) a (url r)" by blast
  let ?text = "get_text (ancestor_at (min 3 (length (snd a))) a)"
  note t = select_cards_tags[OF a]
  have c: "context_text a = Some ?text" using context_text_tags[OF t(1,3)] .
  from listing_of_context[OF c, of "unicode_nd E" "url r"] r
  have "snippet r = (if ?text = [] then None else Some (take 300 ?text))"
    "price_guess r = price_of (unicode_nd E) ?text" "location_guess r = location_of ?text"
    by simp_all
  with r t(2) c have "r = listing_of (unicode_nd E) a (url r) \<and>
           snd a \<noteq> [] \<and>
           ?text = get_text (ancestor_at (min 3 (length (snd a))) a) \<and>
           context_text a = Some ?text \<and>
           snippet r = (if ?text = [] then None else Some (take 300 ?text)) \<and>
           price_guess r = price_of (unicode_nd E) ?text \<and>
           location_guess r = location_of ?text" by (intro conjI) simp_all
  then have "\<exists>text. r = listing_of (unicode_nd E) a (url r) \<and>
           snd a \<noteq> [] \<and>
           text = get_text (ancestor_at (min 3 (length (snd a))) a) \<and>
           context_text a = Some text \<and>
           snippet r = (if text = [] then None else Some (take 300 text)) \<and>
           price_guess r = price_of (unicode_nd E) text \<and>
           location_guess r = location_of text" by (rule exI)
  with a show ?thesis by (rule bexI[rotated])
qed


theorem context_text_walk_witness:
  "extract_listings demo_env (ustr ''one'') = Inr [demo_row1] \<and> demo_row1 \<in> set [demo_row1] \<and>
   (\<exists>a\<in>set (select_cards (html_parser demo_env (ustr ''one''))). \<exists>text.
      demo_row1 = listing_of (unicode_nd demo_env) a (url demo_row1) \<and>
      snd a \<noteq> [] \<and>
      text = get_text (ancestor_at (min 3 (length (snd a))) a) \<and>
      context_text a = Some text \<and>
      snippet demo_row1 = (if text = [] then None else Some (take 300 text)) \<and>
      price_guess demo_row1 = price_of (unicode_nd demo_env) text \<and>
      location_guess demo_row1 = location_of text)"
  using context_text_walk[OF demo_extract_one, of demo_row1] demo_extract_one by simp


text \<open>
  Claim C5, as stated, says that the context text is absent when no ancestor can be
  reached from the anchor. An anchor without any node above it keeps itself as the
  context node, and the test \<^verbatim>\<open>if parent:\<close> holds of every tag: its context text is its
  own text, and snippet, price and location are all present here. An anchor directly
  below the document has no element above it and takes the text of the document.
\<close>

theorem context_absent_counterexample:
  "snd (demo_anchor, []) = [] \<and>
   context_text (demo_anchor, []) = Some (ustr ''Mat in Goa '' @ [rupee] @ ustr ''5'') \<and>
   snippet (listing_of (\<lambda>c. False) (demo_anchor, []) (ustr ''u'')) =
     Some (ustr ''Mat in Goa '' @ [rupee] @ ustr ''5'') \<and>
   price_guess (listing_of (\<lambda>c. False) (demo_anchor, []) (ustr ''u'')) =
     Some ([rupee] @ ustr ''5'') \<and>
   location_guess (listing_of (\<lambda>c. False) (demo_anchor, []) (ustr ''u'')) = Some (ustr ''Goa'') \<and>
   select_cards demo_page3 = [(demo_anchor, [demo_page3])] \<and>
   context_text (demo_anchor, [demo_page3]) = Some (ustr ''Mat in Goa '' @ [rupee] @ ustr ''5'') \<and>
   snippet (listing_of (\<lambda>c. False) (demo_anchor, [demo_page3]) (ustr ''u'')) =
     Some (ustr ''Mat in Goa '' @ [rupee] @ ustr ''5'')"
  by code_simp

section \<open>What the matchers accept\<close>

lemma m_star_mem: "r \<in> set (m_star P s) \<longleftrightarrow> (\<exists>pre. s = pre @ r \<and> (\<forall>c\<in>set pre. P c))"
proof (induction s)
  case Nil
  show ?case by auto
next
  case (Cons c cs)
  show ?case
  proof
    assume "r \<in> set (m_star P (c # cs))"
    then have "r = c # cs \<or> (P c \<and> r \<in> set (m_star P cs))" by (auto split: if_splits)
    then show "\<exists>pre. c # cs = pre @ r \<and> (\<forall>c\<in>set pre. P c)"
    proof
      assume "r = c # cs"
      then have "c # cs = [] @ r \<and> (\<forall>c\<in>set []. P c)" by simp
      then show ?thesis by blast
    next
      assume a: "P c \<and> r \<in> set (m_star P cs)"
      with Cons.IH obtain pre where "cs = pre @ r" "\<forall>c\<in>set pre. P c" by blast
      with a have "c # cs = (c # pre) @ r \<and> (\<forall>x\<in>set (c # pre). P x)" by simp
      then show ?thesis by blast
    qed
  next
    assume "\<exists>pre. c # cs = pre @ r \<and> (\<forall>c\<in>set pre. P c)"
    then obtain pre where pre: "c # cs = pre @ r" "\<forall>c\<in>set pre. P c" by blast
    show "r \<in> set (m_star P (c # cs))"
    proof (cases pre)
      case Nil
      with pre have "r = c # cs" by simp
      then show ?thesis by simp
    next
      case (Cons x pre')
      with pre have "P c" "cs = pre' @ r" "\<forall>c\<in>set pre'. P c" by simp_all
      with Cons.IH show ?thesis by auto
    qed
  qed
qed

lemma m_star_hd: "\<exists>rs. m_star P s = dropWhile P s # rs"
  by (induction s) auto

lemma m_cls_mem: "r \<in> set (m_cls P s) \<longleftrightarrow> (\<exists>c. s = c # r \<and> P c)"
  by (auto simp: m_cls_def split: list.splits if_splits)

lemma m_lit_mem: "r \<in> set (m_lit w s) \<longleftrightarrow> s = w @ r"
proof
  assume "r \<in> set (m_lit w s)"
  then have "take (length w) s = w" "r = drop (length w) s"
    by (auto simp: m_lit_def split: if_splits)
  then show "s = w @ r" using append_take_drop_id[of "length w" s] by simp
next
  assume "s = w @ r"
  then show "r \<in> set (m_lit w s)" by (simp add: m_lit_def)
qed

lemma m_seq_mem: "r \<in> set (m_seq m1 m2 s) \<longleftrightarrow> (\<exists>r1\<in>set (m1 s). r \<in> set (m2 r1))"
  by (auto simp: m_seq_def)

lemma m_alt_mem: "r \<in> set (m_alt m1 m2 s) \<longleftrightarrow> r \<in> set (m1 s) \<or> r \<in> set (m2 s)"
  by (auto simp: m_alt_def)

lemma m_opt_mem: "r \<in> set (m_opt m s) \<longleftrightarrow> r \<in> set (m s) \<or> r = s"
  by (auto simp: m_opt_def)

lemma m_atleast_mem:
  "r \<in> set (m_atleast n P s) \<longleftrightarrow> (\<exists>pre. s = pre @ r \<and> (\<forall>c\<in>set pre. P c) \<and> n \<le> length pre)"
proof (induction n arbitrary: s)
  case 0
  show ?case by (simp add: m_star_mem)
next
  case (Suc n)
  show ?case
  proof
    assume "r \<in> set (m_atleast (Suc n) P s)"
    then obtain c r1 where "s = c # r1" "P c" "r \<in> set (m_atleast n P r1)"
      by (auto simp: m_seq_mem m_cls_mem)
    with Suc.IH obtain pre where "r1 = pre @ r" "\<forall>c\<in>set pre. P c" "n \<le> length pre" by blast
    with \<open>s = c # r1\<close> \<open>P c\<close>
    have "s = (c # pre) @ r \<and> (\<forall>x\<in>set (c # pre). P x) \<and> Suc n \<le> length (c # pre)" by simp
    then show "\<exists>pre. s = pre @ r \<and> (\<forall>c\<in>set pre. P c) \<and> Suc n \<le> length pre" by blast
  next
    assume "\<exists>pre. s = pre @ r \<and> (\<forall>c\<in>set pre. P c) \<and> Suc n \<le> length pre"
    then obtain pre where pre: "s = pre @ r" "\<forall>c\<in>set pre. P c" "Suc n \<le> length pre" by blast
    then obtain c pre' where "pre = c # pre'" by (cases pre) auto
    with pre have "s = c # (pre' @ r)" "P c" "\<forall>c\<in>set pre'. P c" "n \<le> length pre'" by simp_all
    with Suc.IH[of "pre' @ r"] show "r \<in> set (m_atleast (Suc n) P s)"
      by (auto simp: m_seq_mem m_cls_mem)
  qed
qed

lemma m_atleast_hd: "m_atleast n P s = r # rs \<Longrightarrow> r = dropWhile P s"
proof (induction n arbitrary: s)
  case 0
  then show ?case using m_star_hd[of P s] by auto
next
  case (Suc n)
  then show ?case
    by (cases s) (auto simp: m_seq_def m_cls_def split: if_splits)
qed

lemma concat_hd:
  "concat xss = r # rs \<Longrightarrow> \<exists>xs\<in>set xss. \<exists>rs'. xs = r # rs'"
proof (induction xss)
  case Nil
  then show ?case by simp
next
  case (Cons xs xss)
  then show ?case by (cases xs) auto
qed

lemma dropWhile_hd: "dropWhile P s = c # cs \<Longrightarrow> \<not> P c"
  using hd_dropWhile[of P s] by auto


lemma re_search_Some:
  assumes "\<And>s r. r \<in> set (m s) \<Longrightarrow> \<exists>g. s = g @ r"
  shows "re_search m s = Some (pre, g) \<Longrightarrow>
         \<exists>r rs. s = pre @ g @ r \<and> m (g @ r) = r # rs \<and> (\<forall>k<length pre. m (drop k s) = [])"
proof (induction s arbitrary: pre)
  case Nil
  then obtain r rs where m: "m [] = r # rs" and "pre = []" "g = []"
    by (auto split: list.splits)
  from assms[of r "[]"] m have "r = []" by auto
  with m \<open>pre = []\<close> \<open>g = []\<close> show ?case by simp
next
  case (Cons c cs)
  show ?case
  proof (cases "m (c # cs)")
    case Nil
    with Cons.prems obtain pre' where p: "pre = c # pre'" "re_search m cs = Some (pre', g)"
      by auto
    from Cons.IH[OF p(2)] obtain r rs where
      r: "cs = pre' @ g @ r" "m (g @ r) = r # rs" "\<forall>k<length pre'. m (drop k cs) = []" by blast
    have "m (drop k (c # cs)) = []" if "k < length pre" for k
      using that p(1) r(3) Nil by (cases k) auto
    with r p(1) show ?thesis by auto
  next
    case (Cons r rs)
    with Cons.prems have p: "pre = []" "g = take (length (c # cs) - length r) (c # cs)" by auto
    from assms[of r "c # cs"] Cons obtain g' where g': "c # cs = g' @ r" by auto
    then have "length (c # cs) - length r = length g'"
      by (metis add_diff_cancel_right' length_append)
    with p(2) g' have "g = g'" by (metis append_eq_conv_conj)
    with g' Cons p(1) show ?thesis by auto
  qed
qed

lemma re_search_None: "re_search m s = None \<longleftrightarrow> (\<forall>k\<le>length s. m (drop k s) = [])"
proof (induction s)
  case Nil
  show ?case by (auto split: list.splits)
next
  case (Cons c cs)
  show ?case
  proof (cases "m (c # cs)")
    case Nil
    have "(\<forall>k\<le>length (c # cs). m (drop k (c # cs)) = []) \<longleftrightarrow> (\<forall>k\<le>length cs. m (drop k cs) = [])"
    proof
      assume a: "\<forall>k\<le>length (c # cs). m (drop k (c # cs)) = []"
      show "\<forall>k\<le>length cs. m (drop k cs) = []"
      proof (intro allI impI)
        fix k assume "k \<le> length cs"
        with a have "m (drop (Suc k) (c # cs)) = []" by (metis Suc_le_mono length_Cons)
        then show "m (drop k cs) = []" by simp
      qed
    next
      assume a: "\<forall>k\<le>length cs. m (drop k cs) = []"
      show "\<forall>k\<le>length (c # cs). m (drop k (c # cs)) = []"
      proof (intro allI impI)
        fix k assume "k \<le> length (c # cs)"
        then show "m (drop k (c # cs)) = []" using a Nil by (cases k) auto
      qed
    qed
    with Nil Cons.IH show ?thesis by simp
  next
    case (Cons r rs)
    then have "re_search m (c # cs) \<noteq> None" by simp
    moreover have "\<not> (\<forall>k\<le>length (c # cs). m (drop k (c # cs)) = [])"
    proof
      assume "\<forall>k\<le>length (c # cs). m (drop k (c # cs)) = []"
      then have "m (drop 0 (c # cs)) = []" by blast
      with Cons show False by simp
    qed
    ultimately show ?thesis by blast
  qed
qed

lemma price_rx_mem:
  "r \<in> set (price_rx nd s) \<longleftrightarrow> (\<exists>p. s = p @ r \<and> price_shape nd p)"
proof
  assume "r \<in> set (price_rx nd s)"
  then have "\<exists>r1\<in>set (m_lit [rupee] s). \<exists>r2\<in>set (m_opt (m_cls py_isspace) r1).
            r \<in> set (m_atleast 1 (digit_or_comma nd) r2)"
    unfolding price_rx_def m_seq_mem by blast
  then obtain r1 r2 where r1: "s = [rupee] @ r1"
    and r2: "r2 \<in> set (m_cls py_isspace r1) \<or> r2 = r1"
    and r: "r \<in> set (m_atleast 1 (digit_or_comma nd) r2)"
    by (metis m_lit_mem m_opt_mem)
  from r obtain ds where ds: "r2 = ds @ r" "\<forall>c\<in>set ds. digit_or_comma nd c" "1 \<le> length ds"
    unfolding m_atleast_mem by blast
  from r2 obtain sp where sp: "r1 = sp @ r2" "length sp \<le> 1" "\<forall>c\<in>set sp. py_isspace c"
  proof
    assume "r2 \<in> set (m_cls py_isspace r1)"
    then obtain c where "r1 = [c] @ r2" "py_isspace c" by (auto simp: m_cls_mem)
    then show ?thesis using that[of "[c]"] by simp
  next
    assume "r2 = r1"
    then show ?thesis using that[of "[]"] by simp
  qed
  from ds(3) have "ds \<noteq> []" by auto
  with r1 sp ds have "s = (rupee # sp @ ds) @ r \<and> price_shape nd (rupee # sp @ ds)"
    unfolding price_shape_def by auto
  then show "\<exists>p. s = p @ r \<and> price_shape nd p" by blast
next
  assume "\<exists>p. s = p @ r \<and> price_shape nd p"
  then obtain sp ds where s: "s = (rupee # sp @ ds) @ r" and sp: "length sp \<le> 1" "\<forall>c\<in>set sp. py_isspace c"
    and ds: "ds \<noteq> []" "\<forall>c\<in>set ds. digit_or_comma nd c"
    unfolding price_shape_def by blast
  let ?r1 = "sp @ ds @ r" and ?r2 = "ds @ r"
  have a: "s = [rupee] @ ?r1" using s by simp
  have b: "?r2 \<in> set (m_cls py_isspace ?r1) \<or> ?r2 = ?r1"
  proof (cases sp)
    case Nil
    then show ?thesis by simp
  next
    case (Cons c rest)
    with sp have "sp = [c]" "py_isspace c" by simp_all
    then show ?thesis by (simp add: m_cls_mem)
  qed
  have "1 \<le> length ds" using ds(1) by (cases ds) auto
  with ds(2) have c: "r \<in> set (m_atleast 1 (digit_or_comma nd) ?r2)"
    unfolding m_atleast_mem by blast
  from a have a': "?r1 \<in> set (m_lit [rupee] s)" unfolding m_lit_mem .
  from b have b': "?r2 \<in> set (m_opt (m_cls py_isspace) ?r1)" unfolding m_opt_mem .
  from a' b' c show "r \<in> set (price_rx nd s)"
    unfolding price_rx_def m_seq_mem by blast
qed

lemma m_seq_hd:
  assumes "m_seq m1 m2 s = r # rs"
  shows "\<exists>r1\<in>set (m1 s). \<exists>rs'. m2 r1 = r # rs'"
proof -
  from assms have "concat (map m2 (m1 s)) = r # rs" by (simp add: m_seq_def)
  from concat_hd[OF this] obtain xs where "xs \<in> set (map m2 (m1 s))" and "\<exists>rs'. xs = r # rs'"
    by blast
  then show ?thesis by auto
qed

lemma price_rx_hd:
  assumes "price_rx nd s = r # rs"
  shows "case r of [] \<Rightarrow> True | c # cs \<Rightarrow> \<not> digit_or_comma nd c"
proof -
  from assms
  have "m_seq (m_lit [rupee]) (m_seq (m_opt (m_cls py_isspace)) (m_atleast 1 (digit_or_comma nd))) s =
          r # rs"
    by (simp only: price_rx_def)
  from m_seq_hd[OF this] obtain r1 rs' where
    "m_seq (m_opt (m_cls py_isspace)) (m_atleast 1 (digit_or_comma nd)) r1 = r # rs'" by blast
  from m_seq_hd[OF this] obtain r2 rs'' where
    "m_atleast 1 (digit_or_comma nd) r2 = r # rs''" by blast
  from m_atleast_hd[OF this] have d: "dropWhile (digit_or_comma nd) r2 = r" by simp
  show ?thesis
  proof (cases r)
    case Nil
    then show ?thesis by simp
  next
    case (Cons c cs)
    with d have "dropWhile (digit_or_comma nd) r2 = c # cs" by simp
    from dropWhile_hd[OF this] Cons show ?thesis by simp
  qed
qed

lemma price_of_Some:
  assumes "price_of nd text = Some p"
  shows "\<exists>pre post. text = pre @ p @ post \<and> price_shape nd p \<and>
           (\<forall>pre' p' post'. text = pre' @ p' @ post' \<and> price_shape nd p' \<longrightarrow>
              length pre \<le> length pre') \<and>
           (case post of [] \<Rightarrow> True | c # cs \<Rightarrow> \<not> digit_or_comma nd c)"
proof -
  from assms obtain pre where s: "re_search (price_rx nd) text = Some (pre, p)"
    by (auto simp: price_of_def)
  have suf: "\<And>s r. r \<in> set (price_rx nd s) \<Longrightarrow> \<exists>g. s = g @ r"
    using price_rx_mem by blast
  from re_search_Some[of "price_rx nd", OF suf s] obtain post rs where
    t: "text = pre @ p @ post" and m: "price_rx nd (p @ post) = post # rs"
    and e: "\<forall>k<length pre. price_rx nd (drop k text) = []" by blast
  from m have "post \<in> set (price_rx nd (p @ post))" by simp
  then obtain p0 where "p @ post = p0 @ post" "price_shape nd p0" unfolding price_rx_mem by blast
  then have sh: "price_shape nd p" by simp
  have first: "length pre \<le> length pre'"
    if "text = pre' @ p' @ post'" and "price_shape nd p'" for pre' p' post'
  proof (rule ccontr)
    assume "\<not> length pre \<le> length pre'"
    then have "length pre' < length pre" by simp
    with e have "price_rx nd (drop (length pre') text) = []" by blast
    moreover have dr: "drop (length pre') text = p' @ post'" using that(1) by simp
    ultimately have "price_rx nd (p' @ post') = []" by simp
    moreover have "post' \<in> set (price_rx nd (p' @ post'))"
      unfolding price_rx_mem using that(2) by blast
    ultimately show False by simp
  qed
  then have first': "\<forall>pre' p' post'. text = pre' @ p' @ post' \<and> price_shape nd p' \<longrightarrow>
              length pre \<le> length pre'" by blast
  from t sh first' price_rx_hd[OF m]
  have "text = pre @ p @ post \<and> price_shape nd p \<and>
           (\<forall>pre' p' post'. text = pre' @ p' @ post' \<and> price_shape nd p' \<longrightarrow>
              length pre \<le> length pre') \<and>
           (case post of [] \<Rightarrow> True | c # cs \<Rightarrow> \<not> digit_or_comma nd c)"
    by (intro conjI)
  then show ?thesis by (intro exI)
qed

lemma price_of_None:
  "price_of nd text = None \<longleftrightarrow> \<not> (\<exists>pre p post. text = pre @ p @ post \<and> price_shape nd p)"
proof
  assume "price_of nd text = None"
  then have n: "\<forall>k\<le>length text. price_rx nd (drop k text) = []"
    by (simp add: price_of_def re_search_None)
  show "\<not> (\<exists>pre p post. text = pre @ p @ post \<and> price_shape nd p)"
  proof
    assume "\<exists>pre p post. text = pre @ p @ post \<and> price_shape nd p"
    then obtain pre p post where t: "text = pre @ p @ post" "price_shape nd p" by blast
    then have "post \<in> set (price_rx nd (p @ post))" unfolding price_rx_mem by blast
    moreover have le: "length pre \<le> length text" and dr: "drop (length pre) text = p @ post"
      using t(1) by simp_all
    from n le have "price_rx nd (drop (length pre) text) = []" by blast
    then have "price_rx nd (p @ post) = []" unfolding dr .
    ultimately show False by simp
  qed
next
  assume a: "\<not> (\<exists>pre p post. text = pre @ p @ post \<and> price_shape nd p)"
  have "price_rx nd (drop k text) = []" for k
  proof (rule ccontr)
    assume "price_rx nd (drop k text) \<noteq> []"
    then obtain r where "r \<in> set (price_rx nd (drop k text))" by (cases "price_rx nd (drop k text)") auto
    then obtain p where "drop k text = p @ r" "price_shape nd p" unfolding price_rx_mem by blast
    then have "text = take k text @ p @ r \<and> price_shape nd p"
      using append_take_drop_id[of k "text"] by simp
    with a show False by blast
  qed
  then show "price_of nd text = None" by (simp add: price_of_def re_search_None)
qed

section \<open>C3: the price guess\<close>

lemma extract_listings_guesses:
  assumes "extract_listings E html = Inr rs" and "r \<in> set rs"
  shows "\<exists>a\<in>set (select_cards (html_parser E html)). \<exists>ctx.
           r = listing_of (unicode_nd E) a (url r) \<and>
           context_text a = Some ctx \<and>
           price_guess r = price_of (unicode_nd E) ctx \<and>
           location_guess r = location_of ctx"
proof -
  from extract_listings_origin[OF assms] obtain a where
    a: "a \<in> set (select_cards (html_parser E html))" and
    r: "r = listing_of (unicode_nd E) a (url r)" by blast
  note t = select_cards_tags[OF a]
  from context_text_tags[OF t(1,3)] obtain ctx where c: "context_text a = Some ctx" by blast
  from listing_of_context(2,3)[OF c, of "unicode_nd E" "url r"] r
  have "price_guess r = price_of (unicode_nd E) ctx" "location_guess r = location_of ctx"
    by simp_all
  with r c have "r = listing_of (unicode_nd E) a (url r) \<and>
           context_text a = Some ctx \<and>
           price_guess r = price_of (unicode_nd E) ctx \<and>
           location_guess r = location_of ctx" by (intro conjI)
  then have "\<exists>ctx. r = listing_of (unicode_nd E) a (url r) \<and>
           context_text a = Some ctx \<and>
           price_guess r = price_of (unicode_nd E) ctx \<and>
           location_guess r = location_of ctx" by (rule exI[of _ ctx])
  with a show ?thesis by (rule bexI[rotated])
qed

text \<open>
  Claim C3, as the code has it. Every record that \<open>extract_listings\<close> returns was built
  from a selected anchor, and its price guess is computed from the context text of that
  anchor. It is absent exactly when no substring of the context text has the shape that
  the pattern accepts: the rupee sign, at most one whitespace character, then one or more
  characters each of which is a decimal digit or a comma. When it is present, it is such
  a substring, no substring of that shape starts further left, and it is not followed by
  a digit or a comma.
\<close>

theorem price_guess_first_match:
  assumes "extract_listings E html = Inr rs" and "r \<in> set rs"
  shows "\<exists>a\<in>set (select_cards (html_parser E html)). \<exists>ctx.
           r = listing_of (unicode_nd E) a (url r) \<and>
           context_text a = Some ctx \<and>
           (price_guess r = None \<longleftrightarrow>
              \<not> (\<exists>pre p post. ctx = pre @ p @ post \<and> price_shape (unicode_nd E) p)) \<and>
           (\<forall>p. price_guess r = Some p \<longrightarrow>
              (\<exists>pre post. ctx = pre @ p @ post \<and> price_shape (unicode_nd E) p \<and>
                 (\<forall>pre' p' post'. ctx = pre' @ p' @ post' \<and> price_shape (unicode_nd E) p' \<longrightarrow>
                    length pre \<le> length pre') \<and>
                 (case post of [] \<Rightarrow> True | c # cs \<Rightarrow> \<not> digit_or_comma (unicode_nd E) c)))"
proof -
  from extract_listings_guesses[OF assms] obtain a ctx where
    a: "a \<in> set (select_cards (html_parser E html))" and
    r: "r = listing_of (unicode_nd E) a (url r)" and
    c: "context_text a = Some ctx" and
    p: "price_guess r = price_of (unicode_nd E) ctx" by blast
  have n: "price_guess r = None \<longleftrightarrow>
              \<not> (\<exists>pre p post. ctx = pre @ p @ post \<and> price_shape (unicode_nd E) p)"
    unfolding p by (rule price_of_None)
  have s: "\<forall>q. price_guess r = Some q \<longrightarrow>
              (\<exists>pre post. ctx = pre @ q @ post \<and> price_shape (unicode_nd E) q \<and>
                 (\<forall>pre' p' post'. ctx = pre' @ p' @ post' \<and> price_shape (unicode_nd E) p' \<longrightarrow>
                    length pre \<le> length pre') \<and>
                 (case post of [] \<Rightarrow> True | c # cs \<Rightarrow> \<not> digit_or_comma (unicode_nd E) c))"
    unfolding p using price_of_Some by blast
  from r c n s have "\<exists>ctx. r = listing_of (unicode_nd E) a (url r) \<and>
           context_text a = Some ctx \<and>
           (price_guess r = None \<longleftrightarrow>
              \<not> (\<exists>pre p post. ctx = pre @ p @ post \<and> price_shape (unicode_nd E) p)) \<and>
           (\<forall>p. price_guess r = Some p \<longrightarrow>
              (\<exists>pre post. ctx = pre @ p @ post \<and> price_shape (unicode_nd E) p \<and>
                 (\<forall>pre' p' post'. ctx = pre' @ p' @ post' \<and> price_shape (unicode_nd E) p' \<longrightarrow>
                    length pre \<le> length pre') \<and>
                 (case post of [] \<Rightarrow> True | c # cs \<Rightarrow> \<not> digit_or_comma (unicode_nd E) c)))"
    by (intro exI[of _ "ctx"] conjI)
  with a show ?thesis by (rule bexI[rotated])
qed

theorem price_guess_first_match_witness:
  "extract_listings demo_env (ustr ''four'') = Inr [demo_row4] \<and> demo_row4 \<in> set [demo_row4] \<and>
   price_guess demo_row4 = Some ([rupee] @ ustr '' 1,200,'') \<and>
   (\<exists>a\<in>set (select_cards (html_parser demo_env (ustr ''four''))). \<exists>ctx.
      demo_row4 = listing_of (unicode_nd demo_env) a (url demo_row4) \<and>
      context_text a = Some ctx \<and>
      (\<exists>pre post. ctx = pre @ ([rupee] @ ustr '' 1,200,'') @ post \<and>
         price_shape (unicode_nd demo_env) ([rupee] @ ustr '' 1,200,'') \<and>
         (\<forall>pre' p' post'. ctx = pre' @ p' @ post' \<and> price_shape (unicode_nd demo_env) p' \<longrightarrow>
            length pre \<le> length pre') \<and>
         (case post of [] \<Rightarrow> True | c # cs \<Rightarrow> \<not> digit_or_comma (unicode_nd demo_env) c)))"
proof -
  have m: "demo_row4 \<in> set [demo_row4]" by simp
  from price_guess_first_match[OF demo_extract_four m] obtain a where
    a: "a \<in> set (select_cards (html_parser demo_env (ustr ''four'')))"
    and ex: "\<exists>ctx. demo_row4 = listing_of (unicode_nd demo_env) a (url demo_row4) \<and>
           context_text a = Some ctx \<and>
           (price_guess demo_row4 = None \<longleftrightarrow>
              \<not> (\<exists>pre p post. ctx = pre @ p @ post \<and> price_shape (unicode_nd demo_env) p)) \<and>
           (\<forall>p. price_guess demo_row4 = Some p \<longrightarrow>
              (\<exists>pre post. ctx = pre @ p @ post \<and> price_shape (unicode_nd demo_env) p \<and>
                 (\<forall>pre' p' post'. ctx = pre' @ p' @ post' \<and> price_shape (unicode_nd demo_env) p' \<longrightarrow>
                    length pre \<le> length pre') \<and>
                 (case post of [] \<Rightarrow> True | c # cs \<Rightarrow> \<not> digit_or_comma (unicode_nd demo_env) c)))"
    by (rule bexE)
  from ex obtain ctx where
    all: "demo_row4 = listing_of (unicode_nd demo_env) a (url demo_row4) \<and>
           context_text a = Some ctx \<and>
           (price_guess demo_row4 = None \<longleftrightarrow>
              \<not> (\<exists>pre p post. ctx = pre @ p @ post \<and> price_shape (unicode_nd demo_env) p)) \<and>
           (\<forall>p. price_guess demo_row4 = Some p \<longrightarrow>
              (\<exists>pre post. ctx = pre @ p @ post \<and> price_shape (unicode_nd demo_env) p \<and>
                 (\<forall>pre' p' post'. ctx = pre' @ p' @ post' \<and> price_shape (unicode_nd demo_env) p' \<longrightarrow>
                    length pre \<le> length pre') \<and>
                 (case post of [] \<Rightarrow> True | c # cs \<Rightarrow> \<not> digit_or_comma (unicode_nd demo_env) c)))"
    by (rule exE)
  note r = all[THEN conjunct1]
  note c = all[THEN conjunct2, THEN conjunct1]
  note s = all[THEN conjunct2, THEN conjunct2, THEN conjunct2]
  note here = s[rule_format, OF demo_price_four]
  have inner: "\<exists>ctx. demo_row4 = listing_of (unicode_nd demo_env) a (url demo_row4) \<and>
      context_text a = Some ctx \<and>
      (\<exists>pre post. ctx = pre @ ([rupee] @ ustr '' 1,200,'') @ post \<and>
         price_shape (unicode_nd demo_env) ([rupee] @ ustr '' 1,200,'') \<and>
         (\<forall>pre' p' post'. ctx = pre' @ p' @ post' \<and> price_shape (unicode_nd demo_env) p' \<longrightarrow>
            length pre \<le> length pre') \<and>
         (case post of [] \<Rightarrow> True | c # cs \<Rightarrow> \<not> digit_or_comma (unicode_nd demo_env) c))"
    by (rule exI[of _ ctx]) (rule conjI[OF r conjI[OF c here]])
  have outer: "\<exists>a\<in>set (select_cards (html_parser demo_env (ustr ''four''))). \<exists>ctx.
      demo_row4 = listing_of (unicode_nd demo_env) a (url demo_row4) \<and>
      context_text a = Some ctx \<and>
      (\<exists>pre post. ctx = pre @ ([rupee] @ ustr '' 1,200,'') @ post \<and>
         price_shape (unicode_nd demo_env) ([rupee] @ ustr '' 1,200,'') \<and>
         (\<forall>pre' p' post'. ctx = pre' @ p' @ post' \<and> price_shape (unicode_nd demo_env) p' \<longrightarrow>
            length pre \<le> length pre') \<and>
         (case post of [] \<Rightarrow> True | c # cs \<Rightarrow> \<not> digit_or_comma (unicode_nd demo_env) c))"
    by (rule bexI[of _ a]) (rule inner, rule a)
  show ?thesis
    by (rule conjI[OF demo_extract_four conjI[OF m conjI[OF demo_price_four outer]]])
qed

text \<open>
  Claim C3, as stated, asks for digit groups with comma separators. The pattern takes
  any run of digits and commas: in the context text \<open>Cover R 1,200, Mumbai\<close> (with the
  rupee sign for \<open>R\<close>) the guess ends with the comma that follows the amount, and a
  rupee sign followed by a lone comma is a price guess without any digit.
\<close>

theorem price_digit_groups_counterexample:
  "extract_listings demo_env (ustr ''four'') = Inr [demo_row4] \<and>
   price_guess demo_row4 = Some ([rupee] @ ustr '' 1,200,'') \<and>
   \<not> spec_price_shape (unicode_nd demo_env) ([rupee] @ ustr '' 1,200,'') \<and>
   spec_price_shape (unicode_nd demo_env) ([rupee] @ ustr '' 1,200'') \<and>
   price_of (\<lambda>c. False) ([rupee] @ ustr '','') = Some ([rupee] @ ustr '','') \<and>
   \<not> spec_price_shape (\<lambda>c. False) ([rupee] @ ustr '','')"
  by code_simp

section \<open>What the location pattern accepts\<close>

lemma place_name_iff:
  "place_name cap \<longleftrightarrow>
     (\<exists>c run. cap = c # run \<and> is_upper c \<and> (\<forall>x\<in>set run. place_char x) \<and> 2 \<le> length run)"
proof
  assume "place_name cap"
  then obtain w run c rest where cap: "cap = w @ run" and w: "w = c # rest" "is_upper c"
    "\<forall>x\<in>set rest. is_alpha x" and run: "\<forall>x\<in>set run. place_char x" "2 \<le> length run"
    unfolding place_name_def capitalized_word_def by blast
  have "\<forall>x\<in>set rest. place_char x" using w(3) by (auto simp: is_alpha_def place_char_def)
  with cap w run have "cap = c # (rest @ run) \<and> is_upper c \<and>
      (\<forall>x\<in>set (rest @ run). place_char x) \<and> 2 \<le> length (rest @ run)" by auto
  then show "\<exists>c run. cap = c # run \<and> is_upper c \<and> (\<forall>x\<in>set run. place_char x) \<and> 2 \<le> length run"
    by blast
next
  assume "\<exists>c run. cap = c # run \<and> is_upper c \<and> (\<forall>x\<in>set run. place_char x) \<and> 2 \<le> length run"
  then obtain c run where "cap = [c] @ run" "is_upper c" "\<forall>x\<in>set run. place_char x" "2 \<le> length run"
    by auto
  moreover from \<open>is_upper c\<close> have "capitalized_word [c]" by (simp add: capitalized_word_def)
  ultimately show "place_name cap" unfolding place_name_def by blast
qed

lemma location_rx_alt: "location_rx = m_seq_group conn_rx cap_rx"
  by (simp add: location_rx_def conn_rx_def cap_rx_def)

lemma cap_rx_mem: "r \<in> set (cap_rx s) \<longleftrightarrow> (\<exists>cap. s = cap @ r \<and> place_name cap)"
proof
  assume "r \<in> set (cap_rx s)"
  then have "\<exists>r1\<in>set (m_cls is_upper s). r \<in> set (m_atleast 2 place_char r1)"
    unfolding cap_rx_def m_seq_mem .
  then obtain c r1 run where "s = c # r1" "is_upper c" "r1 = run @ r"
    "\<forall>x\<in>set run. place_char x" "2 \<le> length run"
    by (metis m_cls_mem m_atleast_mem)
  then have "s = (c # run) @ r \<and> place_name (c # run)" unfolding place_name_iff by simp
  then show "\<exists>cap. s = cap @ r \<and> place_name cap" by blast
next
  assume "\<exists>cap. s = cap @ r \<and> place_name cap"
  then obtain c run where s: "s = c # (run @ r)" and c: "is_upper c"
    and run: "\<forall>x\<in>set run. place_char x" "2 \<le> length run"
    unfolding place_name_iff by auto
  from s c have "run @ r \<in> set (m_cls is_upper s)" unfolding m_cls_mem by blast
  moreover from run have "r \<in> set (m_atleast 2 place_char (run @ r))"
    unfolding m_atleast_mem by blast
  ultimately show "r \<in> set (cap_rx s)" unfolding cap_rx_def m_seq_mem by blast
qed

lemma conn_rx_mem:
  "r \<in> set (conn_rx s) \<longleftrightarrow>
     (\<exists>conn ws. s = conn @ ws @ r \<and>
        (conn = ustr ''in'' \<or> conn = ustr ''at'' \<or> conn = [bullet]) \<and>
        ws \<noteq> [] \<and> (\<forall>c\<in>set ws. py_isspace c))"
proof
  assume "r \<in> set (conn_rx s)"
  then have "\<exists>r1\<in>set (m_alt (m_lit (ustr ''in'')) (m_alt (m_lit (ustr ''at'')) (m_lit [bullet])) s).
               r \<in> set (m_atleast 1 py_isspace r1)"
    unfolding conn_rx_def m_seq_mem .
  then obtain r1 ws where r1: "s = ustr ''in'' @ r1 \<or> s = ustr ''at'' @ r1 \<or> s = [bullet] @ r1"
    and ws: "r1 = ws @ r" "\<forall>c\<in>set ws. py_isspace c" "1 \<le> length ws"
    by (metis m_alt_mem m_lit_mem m_atleast_mem)
  from ws(3) have "ws \<noteq> []" by auto
  with r1 ws show "\<exists>conn ws. s = conn @ ws @ r \<and>
        (conn = ustr ''in'' \<or> conn = ustr ''at'' \<or> conn = [bullet]) \<and>
        ws \<noteq> [] \<and> (\<forall>c\<in>set ws. py_isspace c)" by blast
next
  assume "\<exists>conn ws. s = conn @ ws @ r \<and>
        (conn = ustr ''in'' \<or> conn = ustr ''at'' \<or> conn = [bullet]) \<and>
        ws \<noteq> [] \<and> (\<forall>c\<in>set ws. py_isspace c)"
  then obtain conn ws where s: "s = conn @ ws @ r"
    and conn: "conn = ustr ''in'' \<or> conn = ustr ''at'' \<or> conn = [bullet]"
    and ws: "ws \<noteq> []" "\<forall>c\<in>set ws. py_isspace c" by blast
  from s conn
  have "ws @ r \<in> set (m_alt (m_lit (ustr ''in'')) (m_alt (m_lit (ustr ''at'')) (m_lit [bullet])) s)"
    unfolding m_alt_mem m_lit_mem by blast
  moreover have "1 \<le> length ws" using ws(1) by (cases ws) auto
  with ws(2) have "r \<in> set (m_atleast 1 py_isspace (ws @ r))" unfolding m_atleast_mem by blast
  ultimately show "r \<in> set (conn_rx s)" unfolding conn_rx_def m_seq_mem by blast
qed

lemma m_seq_group_mem:
  "(g, r) \<in> set (m_seq_group m1 m2 s) \<longleftrightarrow>
     (\<exists>r1\<in>set (m1 s). r \<in> set (m2 r1) \<and> g = take (length r1 - length r) r1)"
  by (auto simp: m_seq_group_def)

lemma location_rx_mem:
  "(g, r) \<in> set (location_rx s) \<longleftrightarrow> (\<exists>m. s = m @ r \<and> location_match m g)"
proof
  assume "(g, r) \<in> set (location_rx s)"
  then obtain r1 where r1: "r1 \<in> set (conn_rx s)" and r: "r \<in> set (cap_rx r1)"
    and g: "g = take (length r1 - length r) r1"
    unfolding location_rx_alt m_seq_group_mem by blast
  from r obtain cap where cap: "r1 = cap @ r" "place_name cap" unfolding cap_rx_mem by blast
  with g have "g = cap" by simp
  from r1 obtain conn ws where "s = conn @ ws @ r1"
    "conn = ustr ''in'' \<or> conn = ustr ''at'' \<or> conn = [bullet]"
    "ws \<noteq> []" "\<forall>c\<in>set ws. py_isspace c" unfolding conn_rx_mem by blast
  with cap \<open>g = cap\<close> have "s = (conn @ ws @ g) @ r \<and> location_match (conn @ ws @ g) g"
    unfolding location_match_def by auto
  then show "\<exists>m. s = m @ r \<and> location_match m g" by blast
next
  assume "\<exists>m. s = m @ r \<and> location_match m g"
  then obtain m conn ws where m: "s = m @ r" "m = conn @ ws @ g"
    and c: "conn = ustr ''in'' \<or> conn = ustr ''at'' \<or> conn = [bullet]"
      "ws \<noteq> []" "\<forall>c\<in>set ws. py_isspace c" and p: "place_name g"
    unfolding location_match_def by blast
  from m have s: "s = conn @ ws @ (g @ r)" by simp
  from s c have "g @ r \<in> set (conn_rx s)" unfolding conn_rx_mem by blast
  moreover from p have "r \<in> set (cap_rx (g @ r))" unfolding cap_rx_mem by blast
  moreover have "g = take (length (g @ r) - length r) (g @ r)" by simp
  ultimately show "(g, r) \<in> set (location_rx s)"
    unfolding location_rx_alt m_seq_group_mem by blast
qed

lemma location_rx_hd:
  assumes "location_rx s = (g, r) # rs"
  shows "case r of [] \<Rightarrow> True | c # cs \<Rightarrow> \<not> place_char c"
proof -
  from assms have "concat (map (\<lambda>r1. map (\<lambda>r2. (take (length r1 - length r2) r1, r2)) (cap_rx r1))
                      (conn_rx s)) = (g, r) # rs"
    by (simp add: location_rx_alt m_seq_group_def)
  from concat_hd[OF this] obtain xs rs' where
    mem: "xs \<in> set (map (\<lambda>r1. map (\<lambda>r2. (take (length r1 - length r2) r1, r2)) (cap_rx r1)) (conn_rx s))"
    and xs: "xs = (g, r) # rs'" by blast
  from mem obtain r1 where
    "xs = map (\<lambda>r2. (take (length r1 - length r2) r1, r2)) (cap_rx r1)" by auto
  with xs have
    "map (\<lambda>r2. (take (length r1 - length r2) r1, r2)) (cap_rx r1) = (g, r) # rs'" by simp
  then obtain rs'' where "cap_rx r1 = r # rs''" by (cases "cap_rx r1") auto
  then have "m_seq (m_cls is_upper) (m_atleast 2 place_char) r1 = r # rs''"
    by (simp only: cap_rx_def)
  from m_seq_hd[OF this] obtain r2 rs3 where "m_atleast 2 place_char r2 = r # rs3" by blast
  from m_atleast_hd[OF this] have d: "dropWhile place_char r2 = r" by simp
  show ?thesis
  proof (cases r)
    case Nil
    then show ?thesis by simp
  next
    case (Cons c cs)
    with d have "dropWhile place_char r2 = c # cs" by simp
    from dropWhile_hd[OF this] Cons show ?thesis by simp
  qed
qed

lemma re_search_group_Some:
  "re_search_group m s = Some (pre, g) \<Longrightarrow>
   \<exists>r rs. m (drop (length pre) s) = (g, r) # rs \<and> take (length pre) s = pre \<and>
          length pre \<le> length s \<and> (\<forall>k<length pre. m (drop k s) = [])"
proof (induction s arbitrary: pre)
  case Nil
  then show ?case by (auto split: list.splits)
next
  case (Cons c cs)
  show ?case
  proof (cases "m (c # cs)")
    case Nil
    with Cons.prems obtain pre' where p: "pre = c # pre'" "re_search_group m cs = Some (pre', g)"
      by auto
    from Cons.IH[OF p(2)] obtain r rs where
      r: "m (drop (length pre') cs) = (g, r) # rs" "take (length pre') cs = pre'"
         "length pre' \<le> length cs" "\<forall>k<length pre'. m (drop k cs) = []" by blast
    have "m (drop k (c # cs)) = []" if "k < length pre" for k
      using that p(1) r(4) Nil by (cases k) auto
    with r p(1) show ?thesis by auto
  next
    case (Cons x xs)
    with Cons.prems show ?thesis by (cases x) auto
  qed
qed

lemma re_search_group_None:
  "re_search_group m s = None \<longleftrightarrow> (\<forall>k\<le>length s. m (drop k s) = [])"
proof (induction s)
  case Nil
  show ?case by (auto split: list.splits)
next
  case (Cons c cs)
  show ?case
  proof (cases "m (c # cs)")
    case Nil
    have "(\<forall>k\<le>length (c # cs). m (drop k (c # cs)) = []) \<longleftrightarrow> (\<forall>k\<le>length cs. m (drop k cs) = [])"
    proof
      assume a: "\<forall>k\<le>length (c # cs). m (drop k (c # cs)) = []"
      show "\<forall>k\<le>length cs. m (drop k cs) = []"
      proof (intro allI impI)
        fix k assume "k \<le> length cs"
        then have "Suc k \<le> length (c # cs)" by simp
        with a have "m (drop (Suc k) (c # cs)) = []" by blast
        then show "m (drop k cs) = []" by simp
      qed
    next
      assume a: "\<forall>k\<le>length cs. m (drop k cs) = []"
      show "\<forall>k\<le>length (c # cs). m (drop k (c # cs)) = []"
      proof (intro allI impI)
        fix k assume "k \<le> length (c # cs)"
        then show "m (drop k (c # cs)) = []" using a Nil by (cases k) auto
      qed
    qed
    with Nil Cons.IH show ?thesis by simp
  next
    case (Cons x xs)
    then have "re_search_group m (c # cs) \<noteq> None" by (cases x) simp
    moreover have "\<not> (\<forall>k\<le>length (c # cs). m (drop k (c # cs)) = [])"
    proof
      assume "\<forall>k\<le>length (c # cs). m (drop k (c # cs)) = []"
      then have "m (drop 0 (c # cs)) = []" by blast
      with Cons show False by simp
    qed
    ultimately show ?thesis by blast
  qed
qed

lemma location_of_Some:
  assumes "location_of ctx = Some l"
  shows "\<exists>pre m cap post. ctx = pre @ m @ post \<and> location_match m cap \<and> l = strip cap \<and>
           (\<forall>pre' m' cap' post'. ctx = pre' @ m' @ post' \<and> location_match m' cap' \<longrightarrow>
              length pre \<le> length pre') \<and>
           (case post of [] \<Rightarrow> True | c # cs \<Rightarrow> \<not> place_char c)"
proof -
  from assms obtain pre g where s: "re_search_group location_rx ctx = Some (pre, g)"
    and l: "l = strip g" by (auto simp: location_of_def)
  from re_search_group_Some[OF s] obtain post rs where
    m: "location_rx (drop (length pre) ctx) = (g, post) # rs"
    and t: "take (length pre) ctx = pre"
    and e: "\<forall>k<length pre. location_rx (drop k ctx) = []" by blast
  from m have "(g, post) \<in> set (location_rx (drop (length pre) ctx))" by simp
  then obtain mt where mt: "drop (length pre) ctx = mt @ post" "location_match mt g"
    unfolding location_rx_mem by blast
  have c: "ctx = pre @ mt @ post" using append_take_drop_id[of "length pre" ctx] t mt(1) by simp
  have first: "length pre \<le> length pre'"
    if "ctx = pre' @ m' @ post'" and "location_match m' cap'" for pre' m' cap' post'
  proof (rule ccontr)
    assume "\<not> length pre \<le> length pre'"
    then have "length pre' < length pre" by simp
    with e have "location_rx (drop (length pre') ctx) = []" by blast
    moreover have "drop (length pre') ctx = m' @ post'" using that(1) by simp
    ultimately have "location_rx (m' @ post') = []" by simp
    moreover have "(cap', post') \<in> set (location_rx (m' @ post'))"
      unfolding location_rx_mem using that(2) by blast
    ultimately show False by simp
  qed
  then have first': "\<forall>pre' m' cap' post'. ctx = pre' @ m' @ post' \<and> location_match m' cap' \<longrightarrow>
              length pre \<le> length pre'" by blast
  from c mt(2) l first' location_rx_hd[OF m]
  have "ctx = pre @ mt @ post \<and> location_match mt g \<and> l = strip g \<and>
           (\<forall>pre' m' cap' post'. ctx = pre' @ m' @ post' \<and> location_match m' cap' \<longrightarrow>
              length pre \<le> length pre') \<and>
           (case post of [] \<Rightarrow> True | c # cs \<Rightarrow> \<not> place_char c)"
    by (intro conjI)
  then show ?thesis by (intro exI)
qed

lemma location_of_None:
  "location_of ctx = None \<longleftrightarrow>
     \<not> (\<exists>pre m cap post. ctx = pre @ m @ post \<and> location_match m cap)"
proof
  assume "location_of ctx = None"
  then have n: "\<forall>k\<le>length ctx. location_rx (drop k ctx) = []"
    by (simp add: location_of_def re_search_group_None)
  show "\<not> (\<exists>pre m cap post. ctx = pre @ m @ post \<and> location_match m cap)"
  proof
    assume "\<exists>pre m cap post. ctx = pre @ m @ post \<and> location_match m cap"
    then obtain pre m cap post where t: "ctx = pre @ m @ post" "location_match m cap" by blast
    then have "(cap, post) \<in> set (location_rx (m @ post))" unfolding location_rx_mem by blast
    moreover have le: "length pre \<le> length ctx" and dr: "drop (length pre) ctx = m @ post"
      using t(1) by simp_all
    from n le have "location_rx (drop (length pre) ctx) = []" by blast
    then have "location_rx (m @ post) = []" unfolding dr .
    ultimately show False by simp
  qed
next
  assume a: "\<not> (\<exists>pre m cap post. ctx = pre @ m @ post \<and> location_match m cap)"
  have "location_rx (drop k ctx) = []" for k
  proof (rule ccontr)
    assume "location_rx (drop k ctx) \<noteq> []"
    then obtain g r where "(g, r) \<in> set (location_rx (drop k ctx))"
      by (cases "location_rx (drop k ctx)") auto
    then obtain m where "drop k ctx = m @ r" "location_match m g" unfolding location_rx_mem by blast
    then have "ctx = take k ctx @ m @ r \<and> location_match m g"
      using append_take_drop_id[of k ctx] by simp
    with a show False by blast
  qed
  then show "location_of ctx = None" by (simp add: location_of_def re_search_group_None)
qed

lemma scenario_D_location: "location_of scenario_D = Some (ustr ''Mumbai'')"
  by code_simp

lemma demo_location_one: "location_guess demo_row1 = Some (ustr ''Mumbai'')"
  by (simp add: demo_row1_def)

section \<open>C4: the location guess\<close>

text \<open>
  Claim C4, as the code has it. Every record that \<open>extract_listings\<close> returns was built
  from a selected anchor, and its location guess is computed from the context text of
  that anchor. A match is the letters \<open>in\<close>, the letters \<open>at\<close> or the bullet, wherever
  they stand, then whitespace, then a place name: a capitalized word followed by a run of
  two or more letters, spaces, periods, commas and hyphens. The guess is absent exactly
  when no substring of the context text is a match. When it is present, it is the place
  name of a match, without the connector and trimmed; no match starts further left, and
  the place name extends as far as the letters, spaces, periods, commas and hyphens go.
  For the context text \<open>Used car cover for sale in Mumbai R 1,200\<close>, with the rupee sign
  for \<open>R\<close>, the guess is \<open>Mumbai\<close>.
\<close>

theorem location_guess_first_match:
  assumes "extract_listings E html = Inr rs" and "r \<in> set rs"
  shows "(\<exists>a\<in>set (select_cards (html_parser E html)). \<exists>ctx.
            r = listing_of (unicode_nd E) a (url r) \<and>
            context_text a = Some ctx \<and> location_guess r = location_of ctx \<and>
            (location_guess r = None \<longleftrightarrow>
               \<not> (\<exists>pre m cap post. ctx = pre @ m @ post \<and> location_match m cap)) \<and>
            (\<forall>l. location_guess r = Some l \<longrightarrow>
               (\<exists>pre m cap post. ctx = pre @ m @ post \<and> location_match m cap \<and> l = strip cap \<and>
                  (\<forall>pre' m' cap' post'. ctx = pre' @ m' @ post' \<and> location_match m' cap' \<longrightarrow>
                     length pre \<le> length pre') \<and>
                  (case post of [] \<Rightarrow> True | c # cs \<Rightarrow> \<not> place_char c)))) \<and>
         location_of scenario_D = Some (ustr ''Mumbai'')"
proof -
  from extract_listings_guesses[OF assms] obtain a ctx where
    a: "a \<in> set (select_cards (html_parser E html))" and
    r: "r = listing_of (unicode_nd E) a (url r)" and
    c: "context_text a = Some ctx" and
    p: "location_guess r = location_of ctx" by blast
  have n: "location_guess r = None \<longleftrightarrow>
               \<not> (\<exists>pre m cap post. ctx = pre @ m @ post \<and> location_match m cap)"
    unfolding p by (rule location_of_None)
  have s: "\<forall>l. location_guess r = Some l \<longrightarrow>
               (\<exists>pre m cap post. ctx = pre @ m @ post \<and> location_match m cap \<and> l = strip cap \<and>
                  (\<forall>pre' m' cap' post'. ctx = pre' @ m' @ post' \<and> location_match m' cap' \<longrightarrow>
                     length pre \<le> length pre') \<and>
                  (case post of [] \<Rightarrow> True | c # cs \<Rightarrow> \<not> place_char c))"
    unfolding p using location_of_Some by blast
  have inner: "\<exists>ctx.
            r = listing_of (unicode_nd E) a (url r) \<and>
            context_text a = Some ctx \<and> location_guess r = location_of ctx \<and>
            (location_guess r = None \<longleftrightarrow>
               \<not> (\<exists>pre m cap post. ctx = pre @ m @ post \<and> location_match m cap)) \<and>
            (\<forall>l. location_guess r = Some l \<longrightarrow>
               (\<exists>pre m cap post. ctx = pre @ m @ post \<and> location_match m cap \<and> l = strip cap \<and>
                  (\<forall>pre' m' cap' post'. ctx = pre' @ m' @ post' \<and> location_match m' cap' \<longrightarrow>
                     length pre \<le> length pre') \<and>
                  (case post of [] \<Rightarrow> True | c # cs \<Rightarrow> \<not> place_char c)))"
    by (rule exI[of _ ctx]) (rule conjI[OF r conjI[OF c conjI[OF p conjI[OF n s]]]])
  have outer: "\<exists>a\<in>set (select_cards (html_parser E html)). \<exists>ctx.
            r = listing_of (unicode_nd E) a (url r) \<and>
            context_text a = Some ctx \<and> location_guess r = location_of ctx \<and>
            (location_guess r = None \<longleftrightarrow>
               \<not> (\<exists>pre m cap post. ctx = pre @ m @ post \<and> location_match m cap)) \<and>
            (\<forall>l. location_guess r = Some l \<longrightarrow>
               (\<exists>pre m cap post. ctx = pre @ m @ post \<and> location_match m cap \<and> l = strip cap \<and>
                  (\<forall>pre' m' cap' post'. ctx = pre' @ m' @ post' \<and> location_match m' cap' \<longrightarrow>
                     length pre \<le> length pre') \<and>
                  (case post of [] \<Rightarrow> True | c # cs \<Rightarrow> \<not> place_char c)))"
    by (rule bexI[of _ a]) (rule inner, rule a)
  show ?thesis by (rule conjI[OF outer scenario_D_location])
qed

theorem location_guess_first_match_witness:
  "extract_listings demo_env (ustr ''one'') = Inr [demo_row1] \<and> demo_row1 \<in> set [demo_row1] \<and>
   location_guess demo_row1 = Some (ustr ''Mumbai'') \<and>
   (\<exists>a\<in>set (select_cards (html_parser demo_env (ustr ''one''))). \<exists>ctx.
      demo_row1 = listing_of (unicode_nd demo_env) a (url demo_row1) \<and>
      context_text a = Some ctx \<and>
      (\<exists>pre m cap post. ctx = pre @ m @ post \<and> location_match m cap \<and>
         ustr ''Mumbai'' = strip cap \<and>
         (\<forall>pre' m' cap' post'. ctx = pre' @ m' @ post' \<and> location_match m' cap' \<longrightarrow>
            length pre \<le> length pre') \<and>
         (case post of [] \<Rightarrow> True | c # cs \<Rightarrow> \<not> place_char c))) \<and>
   location_of scenario_D = Some (ustr ''Mumbai'')"
proof -
  have m: "demo_row1 \<in> set [demo_row1]" by simp
  note th = location_guess_first_match[OF demo_extract_one m]
  from th[THEN conjunct1] obtain a where
    a: "a \<in> set (select_cards (html_parser demo_env (ustr ''one'')))"
    and ex: "\<exists>ctx.
            demo_row1 = listing_of (unicode_nd demo_env) a (url demo_row1) \<and>
            context_text a = Some ctx \<and> location_guess demo_row1 = location_of ctx \<and>
            (location_guess demo_row1 = None \<longleftrightarrow>
               \<not> (\<exists>pre m cap post. ctx = pre @ m @ post \<and> location_match m cap)) \<and>
            (\<forall>l. location_guess demo_row1 = Some l \<longrightarrow>
               (\<exists>pre m cap post. ctx = pre @ m @ post \<and> location_match m cap \<and> l = strip cap \<and>
                  (\<forall>pre' m' cap' post'. ctx = pre' @ m' @ post' \<and> location_match m' cap' \<longrightarrow>
                     length pre \<le> length pre') \<and>
                  (case post of [] \<Rightarrow> True | c # cs \<Rightarrow> \<not> place_char c)))"
    by (rule bexE)
  from ex obtain ctx where
    all: "demo_row1 = listing_of (unicode_nd demo_env) a (url demo_row1) \<and>
            context_text a = Some ctx \<and> location_guess demo_row1 = location_of ctx \<and>
            (location_guess demo_row1 = None \<longleftrightarrow>
               \<not> (\<exists>pre m cap post. ctx = pre @ m @ post \<and> location_match m cap)) \<and>
            (\<forall>l. location_guess demo_row1 = Some l \<longrightarrow>
               (\<exists>pre m cap post. ctx = pre @ m @ post \<and> location_match m cap \<and> l = strip cap \<and>
                  (\<forall>pre' m' cap' post'. ctx = pre' @ m' @ post' \<and> location_match m' cap' \<longrightarrow>
                     length pre \<le> length pre') \<and>
                  (case post of [] \<Rightarrow> True | c # cs \<Rightarrow> \<not> place_char c)))"
    by (rule exE)
  note r = all[THEN conjunct1]
  note c = all[THEN conjunct2, THEN conjunct1]
  note s = all[THEN conjunct2, THEN conjunct2, THEN conjunct2, THEN conjunct2]
  note here = s[rule_format, OF demo_location_one]
  have inner: "\<exists>ctx.
      demo_row1 = listing_of (unicode_nd demo_env) a (url demo_row1) \<and>
      context_text a = Some ctx \<and>
      (\<exists>pre m cap post. ctx = pre @ m @ post \<and> location_match m cap \<and>
         ustr ''Mumbai'' = strip cap \<and>
         (\<forall>pre' m' cap' post'. ctx = pre' @ m' @ post' \<and> location_match m' cap' \<longrightarrow>
            length pre \<le> length pre') \<and>
         (case post of [] \<Rightarrow> True | c # cs \<Rightarrow> \<not> place_char c))"
    by (rule exI[of _ ctx]) (rule conjI[OF r conjI[OF c here]])
  have outer: "\<exists>a\<in>set (select_cards (html_parser demo_env (ustr ''one''))). \<exists>ctx.
      demo_row1 = listing_of (unicode_nd demo_env) a (url demo_row1) \<and>
      context_text a = Some ctx \<and>
      (\<exists>pre m cap post. ctx = pre @ m @ post \<and> location_match m cap \<and>
         ustr ''Mumbai'' = strip cap \<and>
         (\<forall>pre' m' cap' post'. ctx = pre' @ m' @ post' \<and> location_match m' cap' \<longrightarrow>
            length pre \<le> length pre') \<and>
         (case post of [] \<Rightarrow> True | c # cs \<Rightarrow> \<not> place_char c))"
    by (rule bexI[of _ a]) (rule inner, rule a)
  show ?thesis
    by (rule conjI[OF demo_extract_one conjI[OF m conjI[OF demo_location_one
          conjI[OF outer th[THEN conjunct2]]]]])
qed

text \<open>
  Claim C4, as stated, asks for the word \<open>in\<close>, the word \<open>at\<close> or a bullet before the
  place. The pattern has no word boundary: in \<open>Satin Black cover\<close> no word is \<open>in\<close> or
  \<open>at\<close> and there is no bullet, and the guess is \<open>Black cover\<close>, found after the last
  two letters of \<open>Satin\<close>.
\<close>

theorem location_word_counterexample:
  "extract_listings demo_env_satin (ustr ''six'') = Inr [demo_row6] \<and>
   location_guess demo_row6 = Some (ustr ''Black cover'') \<and>
   select_cards (html_parser demo_env_satin (ustr ''six'')) =
     [(Tag (ustr ''a'') [(ustr ''href'', ustr ''/item/6'')]
         [NavigableString (ustr ''Satin Black cover'')], [demo_page6])] \<and>
   context_text (hd (select_cards (html_parser demo_env_satin (ustr ''six'')))) =
     Some (ustr ''Satin Black cover'') \<and>
   words (ustr ''Satin Black cover'') = [ustr ''Satin'', ustr ''Black'', ustr ''cover''] \<and>
   ustr ''in'' \<notin> set (words (ustr ''Satin Black cover'')) \<and>
   ustr ''at'' \<notin> set (words (ustr ''Satin Black cover'')) \<and>
   bullet \<notin> set (ustr ''Satin Black cover'')"
  by code_simp


section \<open>C9: extraction is a function of the page body\<close>



end
